theory Spec2Isabelle
  imports Main "HOL-Library.Word"
begin

unbundle bit_operations_syntax

section \<open>Byte codec (debugedit.c, read\_uleb128 and write\_uleb128)\<close>

type_synonym byte = "8 word"
type_synonym uint32 = "32 word"

definition UINT_MAX :: uint32 where
  "UINT_MAX = 0xffffffff"

text \<open>
  The macro \<^verbatim>\<open>read_uleb128 (ptr)\<close>. The bytes from \<^verbatim>\<open>ptr\<close> on are the list; the
  do-while loop is \<open>read_uleb128_loop\<close>, which carries \<^verbatim>\<open>ret\<close> and \<^verbatim>\<open>shift\<close> and returns
  them with the advanced pointer (the bytes left). Reading past the end of the buffer is
  \<open>None\<close>. \<^verbatim>\<open>c\<close> is an \<^verbatim>\<open>unsigned int\<close>, so the group is shifted as a 32-bit value; a
  shift of 32 or more only happens from the sixth byte on, where the result is replaced
  by \<^verbatim>\<open>UINT_MAX\<close> anyway.
\<close>

fun read_uleb128_loop :: "byte list \<Rightarrow> uint32 \<Rightarrow> nat \<Rightarrow> (uint32 \<times> nat \<times> byte list) option" where
  "read_uleb128_loop [] ret shift = None"
| "read_uleb128_loop (b # ptr) ret shift =
     (let c = (ucast b :: uint32);
          ret' = ret OR push_bit shift (c AND 0x7f);
          shift' = shift + 7
      in if c AND 0x80 \<noteq> 0 then read_uleb128_loop ptr ret' shift'
         else Some (ret', shift', ptr))"

definition read_uleb128 :: "byte list \<Rightarrow> (uint32 \<times> byte list) option" where
  "read_uleb128 ptr =
     (case read_uleb128_loop ptr 0 0 of
        None \<Rightarrow> None
      | Some (ret, shift, ptr') \<Rightarrow> Some (if 35 \<le> shift then UINT_MAX else ret, ptr'))"

text \<open>
  The macro \<^verbatim>\<open>write_uleb128 (ptr, val)\<close>: the result is the bytes stored through
  \<^verbatim>\<open>*(ptr)++\<close>, in order.
\<close>

function write_uleb128 :: "uint32 \<Rightarrow> byte list" where
  "write_uleb128 valv =
     (let c = (ucast (valv AND 0x7f) :: byte);
          valv' = drop_bit 7 valv
      in if valv' \<noteq> 0 then (c OR 0x80) # write_uleb128 valv' else [c])"
  by pat_completeness auto
termination
proof (relation "measure unat")
  show "wf (measure unat)" by simp
next
  fix valv :: uint32 and c :: byte and valv' :: uint32
  assume "valv' = drop_bit 7 valv" and nz: "valv' \<noteq> 0"
  then have "unat valv' = unat valv div 2 ^ 7"
    by (simp add: drop_bit_eq_div unat_div)
  moreover have "unat valv' \<noteq> 0" using nz by (simp add: unat_eq_0)
  ultimately have "unat valv' < unat valv" by (simp add: div_less_dividend)
  then show "(valv', valv) \<in> measure unat" by simp
qed

declare write_uleb128.simps [simp del]

text \<open>
  The fixed-width readers and writers. \<^verbatim>\<open>do_read_32\<close> and its siblings are function
  pointers set once from the ELF data encoding; here the encoding is a parameter. A pointer
  into a section is a byte offset into its data. An access outside the buffer is undefined
  behaviour in C and the value \<open>None\<close> here.
\<close>

datatype endian = ELFDATA2LSB | ELFDATA2MSB

definition buf_read_ule16 :: "byte list \<Rightarrow> nat \<Rightarrow> 16 word" where
  "buf_read_ule16 d p = ucast (d ! p) OR push_bit 8 (ucast (d ! (p + 1)))"

definition buf_read_ube16 :: "byte list \<Rightarrow> nat \<Rightarrow> 16 word" where
  "buf_read_ube16 d p = ucast (d ! (p + 1)) OR push_bit 8 (ucast (d ! p))"

definition buf_read_ule32 :: "byte list \<Rightarrow> nat \<Rightarrow> uint32" where
  "buf_read_ule32 d p =
     ucast (d ! p) OR push_bit 8 (ucast (d ! (p + 1))) OR push_bit 16 (ucast (d ! (p + 2)))
       OR push_bit 24 (ucast (d ! (p + 3)))"

definition buf_read_ube32 :: "byte list \<Rightarrow> nat \<Rightarrow> uint32" where
  "buf_read_ube32 d p =
     ucast (d ! (p + 3)) OR push_bit 8 (ucast (d ! (p + 2))) OR push_bit 16 (ucast (d ! (p + 1)))
       OR push_bit 24 (ucast (d ! p))"

definition do_read_16 :: "endian \<Rightarrow> byte list \<Rightarrow> nat \<Rightarrow> 16 word option" where
  "do_read_16 e d p =
     (if p + 2 \<le> length d
      then Some (case e of ELFDATA2LSB \<Rightarrow> buf_read_ule16 d p | ELFDATA2MSB \<Rightarrow> buf_read_ube16 d p)
      else None)"

definition do_read_32 :: "endian \<Rightarrow> byte list \<Rightarrow> nat \<Rightarrow> uint32 option" where
  "do_read_32 e d p =
     (if p + 4 \<le> length d
      then Some (case e of ELFDATA2LSB \<Rightarrow> buf_read_ule32 d p | ELFDATA2MSB \<Rightarrow> buf_read_ube32 d p)
      else None)"

definition dwarf2_write_le32 :: "byte list \<Rightarrow> nat \<Rightarrow> uint32 \<Rightarrow> byte list" where
  "dwarf2_write_le32 d p v =
     d[p := ucast v, p + 1 := ucast (drop_bit 8 v), p + 2 := ucast (drop_bit 16 v),
       p + 3 := ucast (drop_bit 24 v)]"

definition dwarf2_write_be32 :: "byte list \<Rightarrow> nat \<Rightarrow> uint32 \<Rightarrow> byte list" where
  "dwarf2_write_be32 d p v =
     d[p + 3 := ucast v, p + 2 := ucast (drop_bit 8 v), p + 1 := ucast (drop_bit 16 v),
       p := ucast (drop_bit 24 v)]"

definition do_write_32 :: "endian \<Rightarrow> byte list \<Rightarrow> nat \<Rightarrow> uint32 \<Rightarrow> byte list option" where
  "do_write_32 e d p v =
     (if p + 4 \<le> length d
      then Some (case e of ELFDATA2LSB \<Rightarrow> dwarf2_write_le32 d p v
                         | ELFDATA2MSB \<Rightarrow> dwarf2_write_be32 d p v)
      else None)"

section \<open>Relocation index (find\_rel\_for\_ptr, do\_read\_32\_relocated, do\_write\_32\_relocated)\<close>

text \<open>
  \<^verbatim>\<open>REL\<close>: \<open>ptr\<close> is the offset of the relocated word in the section's data.
  \<^verbatim>\<open>debug_section\<close>: \<open>relbuf\<close> is \<open>None\<close> for a \<^verbatim>\<open>NULL\<close> buffer, otherwise the array
  from \<^verbatim>\<open>relbuf\<close> to \<^verbatim>\<open>relend\<close>; an element pointer is its index, \<^verbatim>\<open>relend\<close> is the length.
  \<open>reltype\<close> holds the ELF section type (\<^verbatim>\<open>sh_type\<close>) of the relocation section.
\<close>

record REL =
  ptr :: nat
  addend :: uint32
  ndx :: nat

record debug_section =
  data :: "byte list"
  relsec :: nat
  reltype :: nat
  relbuf :: "REL list option"
  rel_updated :: bool

definition SHT_RELA :: nat where "SHT_RELA = 4"
definition SHT_REL :: nat where "SHT_REL = 9"

text \<open>
  The process-wide state the relocated reads and writes work on: the section
  descriptors (by an identifier: the \<^verbatim>\<open>debug_sections\<close> entries and the chained COMDAT
  copies), the byte order, and the four \<^verbatim>\<open>last_*\<close> variables. \<open>last_relptr\<close> is \<open>None\<close>
  for \<^verbatim>\<open>NULL\<close> and otherwise an index into the relocation buffer of \<open>last_sec\<close>.
\<close>

record relstate =
  sections :: "nat \<Rightarrow> debug_section"
  ei_data :: endian
  last_relptr :: "nat option"
  last_relend :: "nat option"
  last_reltype :: nat
  last_sec :: "nat option"

function find_rel_loop :: "REL list \<Rightarrow> nat \<Rightarrow> nat \<Rightarrow> nat \<Rightarrow> nat" where
  "find_rel_loop relptr xptr l r =
     (if l < r then
        (let m = (l + r) div 2 in
         if ptr (relptr ! m) < xptr then find_rel_loop relptr xptr (m + 1) r
         else if ptr (relptr ! m) > xptr then find_rel_loop relptr xptr l m
         else m)
      else length relptr)"
  by pat_completeness auto
termination
  by (relation "measure (\<lambda>(relptr, xptr, l, r). r - l)") auto

declare find_rel_loop.simps [simp del]

definition find_rel_for_ptr :: "nat \<Rightarrow> REL list \<Rightarrow> nat" where
  "find_rel_for_ptr xptr relptr = find_rel_loop relptr xptr 0 (length relptr)"

text \<open>
  \<^verbatim>\<open>do_read_32_relocated (xptr, xsec)\<close>: the value read and the state with the
  \<^verbatim>\<open>last_*\<close> variables set. \<^verbatim>\<open>read_32_relocated\<close> also advances the pointer by four.
\<close>

definition do_read_32_relocated :: "relstate \<Rightarrow> nat \<Rightarrow> nat \<Rightarrow> (uint32 \<times> relstate) option" where
  "do_read_32_relocated st xptr xsec =
     (let sec = sections st xsec in
      case do_read_32 (ei_data st) (data sec) xptr of
        None \<Rightarrow> None
      | Some dret0 \<Rightarrow>
          (let relend = map_option length (relbuf sec);
               rtype = reltype sec;
               (dret, relptr) =
                 (case relbuf sec of
                    None \<Rightarrow> (dret0, None)
                  | Some rels \<Rightarrow>
                      (let i = find_rel_for_ptr xptr rels in
                       if i < length rels \<and> ptr (rels ! i) = xptr then
                         (if rtype = SHT_REL then (dret0 + addend (rels ! i), Some i)
                          else (addend (rels ! i), Some i))
                       else (dret0, Some i)))
           in Some (dret, st\<lparr>last_relptr := relptr, last_relend := relend,
                               last_reltype := rtype, last_sec := Some xsec\<rparr>)))"

definition read_32_relocated :: "relstate \<Rightarrow> nat \<Rightarrow> nat \<Rightarrow> (uint32 \<times> nat \<times> relstate) option" where
  "read_32_relocated st p sec =
     (case do_read_32_relocated st p sec of
        None \<Rightarrow> None
      | Some (ret, st') \<Rightarrow> Some (ret, p + 4, st'))"

text \<open>
  \<^verbatim>\<open>do_write_32_relocated (ptr, val)\<close>. The pointer written through is a pair of the
  section it points into and the offset there; \<^verbatim>\<open>last_relptr->ptr == ptr\<close> compares it with
  a pointer into the data of \<open>last_sec\<close>.
\<close>

definition write_raw_32 :: "relstate \<Rightarrow> nat \<Rightarrow> nat \<Rightarrow> uint32 \<Rightarrow> relstate option" where
  "write_raw_32 st psec p v =
     (case do_write_32 (ei_data st) (data (sections st psec)) p v of
        None \<Rightarrow> None
      | Some d' \<Rightarrow> Some (st\<lparr>sections := (sections st)(psec := (sections st psec)\<lparr>data := d'\<rparr>)\<rparr>))"

definition last_rel_hit :: "relstate \<Rightarrow> nat \<Rightarrow> nat \<Rightarrow> (nat \<times> nat \<times> REL list) option" where
  "last_rel_hit st psec p =
     (case (last_relptr st, last_relend st, last_sec st) of
        (Some i, Some e, Some ls) \<Rightarrow>
          (case relbuf (sections st ls) of
             Some rels \<Rightarrow>
               if i < e \<and> i < length rels \<and> ls = psec \<and> ptr (rels ! i) = p
               then Some (ls, i, rels) else None
           | None \<Rightarrow> None)
      | _ \<Rightarrow> None)"

definition do_write_32_relocated :: "relstate \<Rightarrow> nat \<Rightarrow> nat \<Rightarrow> uint32 \<Rightarrow> relstate option" where
  "do_write_32_relocated st psec p val =
     (case last_rel_hit st psec p of
        Some (ls, i, rels) \<Rightarrow>
          if last_reltype st = SHT_REL then write_raw_32 st psec p (val - addend (rels ! i))
          else Some (st\<lparr>sections := (sections st)(ls := (sections st ls)
                 \<lparr>relbuf := Some (rels[i := (rels ! i)\<lparr>addend := val\<rparr>]), rel_updated := True\<rparr>)\<rparr>)
      | None \<Rightarrow> write_raw_32 st psec p val)"

definition write_32_relocated :: "relstate \<Rightarrow> nat \<Rightarrow> nat \<Rightarrow> uint32 \<Rightarrow> (nat \<times> relstate) option" where
  "write_32_relocated st psec p val =
     (case do_write_32_relocated st psec p val of
        None \<Rightarrow> None
      | Some st' \<Rightarrow> Some (p + 4, st'))"

section \<open>Flushing relocation addends (update\_rela\_data)\<close>

text \<open>
  How a run ends other than by returning: \<open>Exit\<close> is \<^verbatim>\<open>error (1, ...)\<close>, which prints the
  message and exits with status 1; \<open>AssertFail\<close> is a failed \<^verbatim>\<open>assert\<close>; \<open>UB\<close> is an access
  outside a buffer or through a null pointer.
\<close>

datatype error = Exit string | AssertFail string | UB

text \<open>
  The part of the ELF image \<^verbatim>\<open>update_rela_data\<close> touches: the entries of each relocation
  section and of each symbol table (by section index), the \<^verbatim>\<open>sh_link\<close> of each section
  header, and the dirty flag of each section's data. \<^verbatim>\<open>gelf_getrela\<close>, \<^verbatim>\<open>gelf_getsym\<close>
  and \<^verbatim>\<open>gelf_update_rela\<close> are the ELF library's accessors: they fail on an index
  outside the table.
\<close>

record GElf_Rela =
  r_offset :: "64 word"
  r_info :: "64 word"
  r_addend :: "64 word"

record GElf_Sym =
  st_value :: "64 word"
  st_shndx :: nat

record DSO =
  scn_rela :: "nat \<Rightarrow> GElf_Rela list"
  scn_sym :: "nat \<Rightarrow> GElf_Sym list"
  shdr_sh_link :: "nat \<Rightarrow> nat"
  scn_dirty :: "nat \<Rightarrow> bool"

definition gelf_getrela :: "GElf_Rela list \<Rightarrow> nat \<Rightarrow> GElf_Rela option" where
  "gelf_getrela d n = (if n < length d then Some (d ! n) else None)"

definition gelf_getsym :: "GElf_Sym list \<Rightarrow> nat \<Rightarrow> GElf_Sym option" where
  "gelf_getsym d n = (if n < length d then Some (d ! n) else None)"

definition gelf_update_rela :: "GElf_Rela list \<Rightarrow> nat \<Rightarrow> GElf_Rela \<Rightarrow> GElf_Rela list option" where
  "gelf_update_rela d n rela = (if n < length d then Some (d[n := rela]) else None)"

definition GELF_R_SYM :: "64 word \<Rightarrow> nat" where
  "GELF_R_SYM i = unat (drop_bit 32 i)"

text \<open>The \<^verbatim>\<open>while (relptr < relend)\<close> loop of \<^verbatim>\<open>update_rela_data\<close>, over the records left.\<close>

fun update_rela_loop :: "GElf_Rela list \<Rightarrow> GElf_Sym list \<Rightarrow> REL list \<Rightarrow> error + GElf_Rela list" where
  "update_rela_loop d symdata [] = Inr d"
| "update_rela_loop d symdata (relptr # rest) =
     (case gelf_getrela d (ndx relptr) of
        None \<Rightarrow> Inl (Exit ''Couldn't get relocation'')
      | Some rela \<Rightarrow>
          (case gelf_getsym symdata (GELF_R_SYM (r_info rela)) of
             None \<Rightarrow> Inl (Exit ''Couldn't get symbol'')
           | Some sy \<Rightarrow>
               (case gelf_update_rela d (ndx relptr)
                       (rela\<lparr>r_addend := ucast (addend relptr) - st_value sy\<rparr>) of
                  None \<Rightarrow> Inl (Exit ''Couldn't update relocations'')
                | Some d' \<Rightarrow> update_rela_loop d' symdata rest)))"

text \<open>
  \<^verbatim>\<open>update_rela_data (dso, sec)\<close>. The freed buffer is \<open>None\<close> in both branches (the
  second branch of the source frees it without clearing the pointer).
\<close>

definition update_rela_data :: "DSO \<Rightarrow> debug_section \<Rightarrow> error + (DSO \<times> debug_section)" where
  "update_rela_data dso sec =
     (if \<not> rel_updated sec then Inr (dso, sec\<lparr>relbuf := None\<rparr>)
      else
        (let relsec_ndx = relsec sec;
             d = scn_rela dso relsec_ndx;
             symdata = scn_sym dso (shdr_sh_link dso relsec_ndx)
         in case update_rela_loop d symdata (case relbuf sec of None \<Rightarrow> [] | Some rels \<Rightarrow> rels) of
              Inl e \<Rightarrow> Inl e
            | Inr d' \<Rightarrow>
                Inr (dso\<lparr>scn_rela := (scn_rela dso)(relsec_ndx := d'),
                         scn_dirty := (scn_dirty dso)(relsec_ndx := True)\<rparr>,
                     sec\<lparr>relbuf := None\<rparr>)))"

section \<open>The .debug\_str\_offsets updater (string\_find\_entry, update\_str\_offsets)\<close>

text \<open>
  The index of \<^verbatim>\<open>.debug_str_offsets\<close> in \<^verbatim>\<open>debug_sections\<close>, used as the identifier of its
  descriptor.
\<close>

definition DEBUG_STR_OFFSETS :: nat where "DEBUG_STR_OFFSETS = 17"

text \<open>
  In phase one the string pool is only read. \<open>strent_root\<close> is the search tree of
  \<^verbatim>\<open>struct stridxentry\<close>: it maps an original offset to the offset \<^verbatim>\<open>strent_offset\<close> gives
  for its entry in the finalized table. \<^verbatim>\<open>string_find_entry\<close> returns a pointer to an
  entry: the static \<^verbatim>\<open>debugedit_stridxentry\<close> or a node of the tree. The dummy's own
  \<^verbatim>\<open>entry\<close> field is \<^verbatim>\<open>NULL\<close> (\<open>None\<close>) until \<^verbatim>\<open>create_dummy_debugedit_stridxentry\<close> ran.
\<close>

datatype stridxentry_ptr = Debugedit_stridxentry | Tree_entry uint32

definition string_find_entry ::
  "(uint32 \<rightharpoonup> nat) \<Rightarrow> uint32 \<Rightarrow> bool \<Rightarrow> error + stridxentry_ptr" where
  "string_find_entry strent_root old_idx accept_missing =
     (case strent_root old_idx of
        None \<Rightarrow> if accept_missing then Inr Debugedit_stridxentry
                else Inl (AssertFail ''ret != NULL'')
      | Some _ \<Rightarrow> Inr (Tree_entry old_idx))"

definition strent_offset ::
  "(uint32 \<rightharpoonup> nat) \<Rightarrow> nat option \<Rightarrow> stridxentry_ptr \<Rightarrow> nat option" where
  "strent_offset strent_root dummy e =
     (case e of Debugedit_stridxentry \<Rightarrow> dummy | Tree_entry i \<Rightarrow> strent_root i)"

text \<open>
  The warning \<^verbatim>\<open>error (0, 0, "Warning, .debug_str_offsets table at offset ...")\<close> goes
  to standard error and the run goes on; the model keeps its arguments in a log.
\<close>

record unused_warning =
  table_offset :: nat
  table_index :: nat
  str_idx :: uint32

text \<open>The inner loop \<^verbatim>\<open>while (ptr < endidxp)\<close> of \<^verbatim>\<open>update_str_offsets\<close>.\<close>

function update_str_offsets_entries ::
  "(uint32 \<rightharpoonup> nat) \<Rightarrow> nat option \<Rightarrow> nat \<Rightarrow> nat \<Rightarrow> nat \<Rightarrow>
   relstate \<Rightarrow> unused_warning list \<Rightarrow> nat \<Rightarrow> error + (nat \<times> relstate \<times> unused_warning list)" where
  "update_str_offsets_entries strent_root dummy index_start offstart endidxp st ws p =
     (if p < endidxp then
        (case do_read_32_relocated st p DEBUG_STR_OFFSETS of
           None \<Rightarrow> Inl UB
         | Some (idx, st1) \<Rightarrow>
             (case string_find_entry strent_root idx True of
                Inl e \<Rightarrow> Inl e
              | Inr entry \<Rightarrow>
                  (let ws1 = (if entry = Debugedit_stridxentry
                              then ws @ [\<lparr>table_offset = index_start,
                                          table_index = (p - offstart) div 4, str_idx = idx\<rparr>]
                              else ws)
                   in case strent_offset strent_root dummy entry of
                        None \<Rightarrow> Inl UB
                      | Some new_idx \<Rightarrow>
                          (case write_32_relocated st1 DEBUG_STR_OFFSETS p (of_nat new_idx) of
                             None \<Rightarrow> Inl UB
                           | Some (p', st2) \<Rightarrow>
                               update_str_offsets_entries strent_root dummy index_start offstart
                                 endidxp st2 ws1 p'))))
      else Inr (p, st, ws))"
  by pat_completeness auto
termination
proof (relation "measure (\<lambda>(strent_root, dummy, index_start, offstart, endidxp, st, ws, p). endidxp - p)")
  show "wf (measure (\<lambda>(strent_root, dummy, index_start, offstart, endidxp, st, ws, p). endidxp - p))"
    by simp
next
  fix strent_root :: "uint32 \<rightharpoonup> nat" and dummy :: "nat option"
    and index_start offstart endidxp p new_idx p' :: nat
    and st st1 st2 :: relstate and ws ws1 :: "unused_warning list"
    and x2 :: "uint32 \<times> relstate" and idx :: uint32 and entry :: stridxentry_ptr
    and x2a :: "nat \<times> relstate"
  assume "p < endidxp"
    and "write_32_relocated st1 DEBUG_STR_OFFSETS p (of_nat new_idx) = Some x2a"
    and "(p', st2) = x2a"
  then have "p' = p + 4"
    by (auto simp: write_32_relocated_def split: option.splits)
  with \<open>p < endidxp\<close>
  show "((strent_root, dummy, index_start, offstart, endidxp, st2, ws1, p'),
         (strent_root, dummy, index_start, offstart, endidxp, st, ws, p))
        \<in> measure (\<lambda>(strent_root, dummy, index_start, offstart, endidxp, st, ws, p). endidxp - p)"
    by simp
qed

declare update_str_offsets_entries.simps [simp del]

text \<open>
  \<^verbatim>\<open>update_str_offsets\<close>: the outer loop over the index tables, from pointer \<open>p\<close> to
  \<open>endp\<close>, and the function itself, which starts it at the beginning of the section
  with \<open>endp\<close> the section's size. Each \<^verbatim>\<open>break\<close> of the source leaves the loop, and
  the function then returns: the result is the state reached so far.
\<close>

function update_str_offsets_loop ::
  "(uint32 \<rightharpoonup> nat) \<Rightarrow> nat option \<Rightarrow> nat \<Rightarrow> relstate \<Rightarrow> unused_warning list \<Rightarrow> nat \<Rightarrow>
   error + (relstate \<times> unused_warning list)" where
  "update_str_offsets_loop strent_root dummy endp st ws p =
     (if p < endp then
        (let index_start = p;
             d = data (sections st DEBUG_STR_OFFSETS)
         in if endp - p < 3 * 4 then Inr (st, ws)
            else
              (case do_read_32 (ei_data st) d p of
                 None \<Rightarrow> Inl UB
               | Some unit_length \<Rightarrow>
                   (let p1 = p + 4 in
                    if unit_length = 0xffffffff \<or> endp - p1 < unat unit_length then Inr (st, ws)
                    else
                      (let endidxp = p1 + unat unit_length in
                       case do_read_16 (ei_data st) d p1 of
                         None \<Rightarrow> Inl UB
                       | Some version \<Rightarrow>
                           (let p2 = p1 + 2 in
                            if version \<noteq> 5 then Inr (st, ws)
                            else
                              (case do_read_16 (ei_data st) d p2 of
                                 None \<Rightarrow> Inl UB
                               | Some padding \<Rightarrow>
                                   (let p3 = p2 + 2 in
                                    if padding \<noteq> 0 then Inr (st, ws)
                                    else
                                      (let offstart = p3 in
                                       case update_str_offsets_entries strent_root dummy
                                              index_start offstart endidxp st ws p3 of
                                         Inl e \<Rightarrow> Inl e
                                       | Inr (p4, st', ws') \<Rightarrow>
                                           update_str_offsets_loop strent_root dummy endp
                                             st' ws' p4))))))))
      else Inr (st, ws))"
  by pat_completeness auto
termination
proof (relation "measure (\<lambda>(strent_root, dummy, endp, st, ws, p). endp - p)")
  show "wf (measure (\<lambda>(strent_root, dummy, endp, st, ws, p). endp - p))"
    by simp
next
  fix strent_root :: "uint32 \<rightharpoonup> nat" and dummy :: "nat option"
    and endp p index_start p1 endidxp p2 p3 offstart p4 :: nat
    and st st' :: relstate and ws ws' :: "unused_warning list"
    and res :: "nat \<times> relstate \<times> unused_warning list" and y :: "relstate \<times> unused_warning list"
  assume lt: "p < endp" and ist: "index_start = p" and p1: "p1 = p + 4" and p2: "p2 = p1 + 2"
    and p3: "p3 = p2 + 2" and off: "offstart = p3"
    and run: "update_str_offsets_entries strent_root dummy index_start offstart endidxp st ws p3
              = Inr res"
    and res: "(p4, y) = res" and y: "(st', ws') = y"
  have mono: "q \<le> q'"
    if "update_str_offsets_entries strent_root dummy a b e s w q = Inr (q', s', w')"
    for a b e s w q q' s' w'
    using that
  proof (induction strent_root dummy a b e s w q rule: update_str_offsets_entries.induct)
    case (1 strent_root dummy index_start offstart endidxp st ws p)
    show ?case
    proof (cases "p < endidxp")
      case False
      then show ?thesis using "1.prems" by (simp add: update_str_offsets_entries.simps)
    next
      case True
      from "1.prems" True obtain idx st1 entry new_idx pa st2 ws1 where
        rd: "do_read_32_relocated st p DEBUG_STR_OFFSETS = Some (idx, st1)"
        and fe: "string_find_entry strent_root idx True = Inr entry"
        and ws1: "ws1 = (if entry = Debugedit_stridxentry
                              then ws @ [\<lparr>table_offset = index_start,
                                          table_index = (p - offstart) div 4, str_idx = idx\<rparr>]
                              else ws)"
        and so: "strent_offset strent_root dummy entry = Some new_idx"
        and wr: "write_32_relocated st1 DEBUG_STR_OFFSETS p (of_nat new_idx) = Some (pa, st2)"
        and rec: "update_str_offsets_entries strent_root dummy index_start offstart endidxp st2 ws1 pa
                  = Inr (q', s', w')"
        by (subst (asm) update_str_offsets_entries.simps)
           (auto simp: Let_def split: option.splits sum.splits prod.splits if_splits)
      have "pa = p + 4" using wr by (auto simp: write_32_relocated_def split: option.splits)
      moreover have "pa \<le> q'"
        using "1.IH"[OF True rd refl fe ws1 so wr refl rec]
        by simp
      ultimately show ?thesis by simp
    qed
  qed
  have "p3 \<le> p4" using mono[of index_start offstart endidxp st ws p3 p4 st' ws'] run res y by simp
  then show "((strent_root, dummy, endp, st', ws', p4), (strent_root, dummy, endp, st, ws, p))
        \<in> measure (\<lambda>(strent_root, dummy, endp, st, ws, p). endp - p)"
    using lt p1 p2 p3 by simp
qed

declare update_str_offsets_loop.simps [simp del]

definition update_str_offsets ::
  "(uint32 \<rightharpoonup> nat) \<Rightarrow> nat option \<Rightarrow> relstate \<Rightarrow> error + (relstate \<times> unused_warning list)" where
  "update_str_offsets strent_root dummy st =
     update_str_offsets_loop strent_root dummy
       (length (data (sections st DEBUG_STR_OFFSETS))) st [] 0"

section \<open>Path utilities and strings (skip\_dir\_prefix)\<close>

text \<open>
  A C string in its own right (\<^verbatim>\<open>base_dir\<close>, \<^verbatim>\<open>dest_dir\<close>, a \<^verbatim>\<open>strdup\<close> copy) is the list
  of its characters before the terminating NUL. A string read from a section is read
  with \<open>c_str\<close>: the characters from the offset up to the first NUL, and \<open>None\<close> when the
  buffer ends before a NUL is met (the source would run off the buffer).
\<close>

definition c_str :: "char list \<Rightarrow> nat \<Rightarrow> string option" where
  "c_str d p =
     (if CHR 0x00 \<in> set (drop p d) then Some (takeWhile (\<lambda>c. c \<noteq> CHR 0x00) (drop p d))
      else None)"

definition IS_DIR_SEPARATOR :: "char \<Rightarrow> bool" where
  "IS_DIR_SEPARATOR c = (c = CHR ''/'')"

text \<open>
  \<^verbatim>\<open>skip_dir_prefix (path, dir_prefix)\<close>: \<open>None\<close> is \<^verbatim>\<open>NULL\<close>. \<^verbatim>\<open>strncmp\<close> over
  \<^verbatim>\<open>prefix_len\<close> characters is zero exactly when the path starts with the prefix.
\<close>

definition skip_dir_prefix :: "string \<Rightarrow> string \<Rightarrow> string option" where
  "skip_dir_prefix path dir_prefix =
     (let prefix_len = length dir_prefix in
      if take prefix_len path = dir_prefix then
        (let path' = drop prefix_len path in
         if path' \<noteq> [] \<and> \<not> IS_DIR_SEPARATOR (hd path') then None
         else Some (dropWhile IS_DIR_SEPARATOR path'))
      else None)"

section \<open>Inline comp\_dir strings (edit\_attributes, DW\_AT\_comp\_dir with DW\_FORM\_string)\<close>

text \<open>The four flags phase zero sets for phase one.\<close>

record flags =
  need_string_replacement :: bool
  need_strp_update :: bool
  need_line_strp_update :: bool
  need_stmt_update :: bool

text \<open>
  \<^verbatim>\<open>memcpy (d + p, src, n)\<close> and \<^verbatim>\<open>memset (d + p, c, n)\<close> on a buffer that holds the \<open>n\<close>
  bytes from \<open>p\<close> on.
\<close>

definition memcpy :: "char list \<Rightarrow> nat \<Rightarrow> char list \<Rightarrow> nat \<Rightarrow> char list" where
  "memcpy d p src n = take p d @ take n src @ drop (p + n) d"

definition memset :: "char list \<Rightarrow> nat \<Rightarrow> char \<Rightarrow> nat \<Rightarrow> char list" where
  "memset d p c n = take p d @ replicate n c @ drop (p + n) d"

text \<open>
  The warning \<^verbatim>\<open>"Warning, not replacing comp_dir '%s' prefix ('%s' -> '%s') encoded as
  DW_FORM_string. Replacement too large."\<close> with its three arguments.
\<close>

datatype comp_dir_warning = Replacement_too_large string string string

text \<open>
  The branch of \<^verbatim>\<open>edit_attributes\<close> for \<^verbatim>\<open>DW_AT_comp_dir\<close> with \<^verbatim>\<open>DW_FORM_string\<close>: \<open>d\<close>
  is the data of the section, \<open>p\<close> the pointer to the attribute's value. The result is the
  data, the captured \<^verbatim>\<open>comp_dir\<close>, the flags and the warnings printed. \<^verbatim>\<open>dest_dir\<close> may be
  \<^verbatim>\<open>NULL\<close> (\<open>None\<close>); \<^verbatim>\<open>base_dir\<close> is set whenever \<^verbatim>\<open>dest_dir\<close> is (\<^verbatim>\<open>main\<close> exits otherwise).
\<close>

definition edit_comp_dir_string ::
  "string \<Rightarrow> string option \<Rightarrow> nat \<Rightarrow> char list \<Rightarrow> nat \<Rightarrow> flags \<Rightarrow>
   error + (char list \<times> string \<times> flags \<times> comp_dir_warning list)" where
  "edit_comp_dir_string base_dir dest_dir phase d p fl =
     (case c_str d p of
        None \<Rightarrow> Inl UB
      | Some comp_dir \<Rightarrow>
          (case dest_dir of
             None \<Rightarrow> Inr (d, comp_dir, fl, [])
           | Some dest \<Rightarrow>
               (case skip_dir_prefix comp_dir base_dir of
                  None \<Rightarrow> Inr (d, comp_dir, fl, [])
                | Some file \<Rightarrow>
                    if phase = 0 then Inr (d, comp_dir, fl\<lparr>need_string_replacement := True\<rparr>, [])
                    else if phase = 1 then
                      (let orig_len = length comp_dir;
                           dest_len = length dest;
                           file_len = length file;
                           new_len = (if file_len > 0 then dest_len + (1 + file_len) else dest_len)
                       in if orig_len < new_len
                          then Inr (d, comp_dir, fl, [Replacement_too_large comp_dir base_dir dest])
                          else Inr (memset (memcpy d p dest dest_len) (p + dest_len) CHR ''/''
                                      (orig_len - new_len),
                                    comp_dir, fl, []))
                    else Inr (d, comp_dir, fl, []))))"

section \<open>The string pool in phase zero (record\_file\_string\_entry\_idx) and the skip of phase one\<close>

text \<open>
  What phase zero keeps of the two string sections: for \<^verbatim>\<open>dso->debug_str\<close> and
  \<^verbatim>\<open>dso->debug_line_str\<close> the entries recorded so far (the search tree keyed by the
  original offset, with the string added to the new table for each key), and the data of
  \<^verbatim>\<open>.debug_str\<close> and \<^verbatim>\<open>.debug_line_str\<close>. A section that is absent has \<^verbatim>\<open>size\<close> 0 and is
  the empty list. \<^verbatim>\<open>string_find_new_entry\<close> returns \<^verbatim>\<open>NULL\<close> exactly when the key is in
  the tree already. Allocation failures are not modelled.
\<close>

record str_state =
  debug_str_entries :: "nat \<rightharpoonup> string"
  debug_line_str_entries :: "nat \<rightharpoonup> string"
  debug_str_data :: "char list"
  debug_line_str_data :: "char list"

definition strings_of :: "bool \<Rightarrow> str_state \<Rightarrow> (nat \<rightharpoonup> string)" where
  "strings_of line_strp dso = (if line_strp then debug_line_str_entries dso else debug_str_entries dso)"

definition strtab_add ::
  "bool \<Rightarrow> str_state \<Rightarrow> nat \<Rightarrow> string \<Rightarrow> str_state" where
  "strtab_add line_strp dso old_idx s =
     (if line_strp then dso\<lparr>debug_line_str_entries := (debug_line_str_entries dso)(old_idx \<mapsto> s)\<rparr>
      else dso\<lparr>debug_str_entries := (debug_str_entries dso)(old_idx \<mapsto> s)\<rparr>)"

definition record_file_string_entry_idx ::
  "string \<Rightarrow> string \<Rightarrow> bool \<Rightarrow> str_state \<Rightarrow> nat \<Rightarrow> error + (bool \<times> str_state)" where
  "record_file_string_entry_idx base_dir dest_dir line_strp dso old_idx =
     (case strings_of line_strp dso old_idx of
        Some _ \<Rightarrow> Inr (False, dso)
      | None \<Rightarrow>
          (let sec = (if line_strp then debug_line_str_data dso else debug_str_data dso)
           in if old_idx \<ge> length sec then Inl (Exit ''Bad string pointer index'')
              else
                (case c_str sec old_idx of
                   None \<Rightarrow> Inl UB
                 | Some old_str \<Rightarrow>
                     (case skip_dir_prefix old_str base_dir of
                        None \<Rightarrow> Inr (False, strtab_add line_strp dso old_idx old_str)
                      | Some file \<Rightarrow>
                          (let nname = (if length file > 0 then dest_dir @ CHR ''/'' # file
                                        else dest_dir)
                           in Inr (True, strtab_add line_strp dso old_idx nname))))))"

text \<open>
  \<^verbatim>\<open>edit_attributes_str_comp_dir\<close>, from the offset \<open>idx\<close> that
  \<^verbatim>\<open>do_read_str_form_relocated\<close> returned: \<open>line_strp\<close> says whether the form is
  \<^verbatim>\<open>DW_FORM_line_strp\<close>. The result is the pool, the flags, \<^verbatim>\<open>*comp_dirp\<close> and
  \<^verbatim>\<open>*handled_strpp\<close>.
\<close>

definition edit_attributes_str_comp_dir ::
  "string \<Rightarrow> string option \<Rightarrow> bool \<Rightarrow> nat \<Rightarrow> nat \<Rightarrow> str_state \<Rightarrow> flags \<Rightarrow> string option \<Rightarrow> bool \<Rightarrow>
   error + (str_state \<times> flags \<times> string option \<times> bool)" where
  "edit_attributes_str_comp_dir base_dir dest_dir line_strp idx phase dso fl comp_dir handled_strp =
     (let sec = (if line_strp then debug_line_str_data dso else debug_str_data dso);
          r1 = (if phase = 0 then
                  (if idx \<ge> length sec then Inl (Exit ''Bad string pointer index for comp_dir'')
                   else case c_str sec idx of None \<Rightarrow> Inl UB | Some dir \<Rightarrow> Inr (Some dir))
                else Inr comp_dir)
      in case r1 of
           Inl e \<Rightarrow> Inl e
         | Inr comp_dir' \<Rightarrow>
             (case dest_dir of
                Some dest \<Rightarrow>
                  if phase = 0 then
                    (case record_file_string_entry_idx base_dir dest line_strp dso idx of
                       Inl e \<Rightarrow> Inl e
                     | Inr (ret, dso') \<Rightarrow>
                         Inr (dso',
                              (if ret then
                                 (if line_strp then fl\<lparr>need_line_strp_update := True\<rparr>
                                  else fl\<lparr>need_strp_update := True\<rparr>)
                               else fl),
                              comp_dir', True))
                  else Inr (dso, fl, comp_dir', handled_strp)
              | None \<Rightarrow> Inr (dso, fl, comp_dir', handled_strp)))"

text \<open>
  The test at the head of the phase loop of \<^verbatim>\<open>edit_dwarf2\<close>: phase one is skipped when
  none of the four flags is set.
\<close>

definition skip_phase_one :: "flags \<Rightarrow> bool" where
  "skip_phase_one fl =
     (\<not> need_strp_update fl \<and> \<not> need_line_strp_update fl \<and> \<not> need_string_replacement fl
      \<and> \<not> need_stmt_update fl)"

section \<open>Path canonicalization (canonicalize\_path)\<close>

text \<open>
  \<^verbatim>\<open>canonicalize_path (s, d)\<close> reads the C string \<open>s\<close> and writes the result at \<open>d\<close>. The
  model keeps the input still to be read (the characters from the pointer \<^verbatim>\<open>s\<close> to the NUL)
  and the output written so far (the characters from \<^verbatim>\<open>rv\<close> to the pointer \<^verbatim>\<open>d\<close>);
  \<open>droot\<close> and \<open>pre\<close> are offsets from \<^verbatim>\<open>rv\<close>. \<open>pre\<close> is an integer, since \<^verbatim>\<open>d - 1\<close> lies one
  before the buffer when nothing was written yet.
\<close>

text \<open>\<^verbatim>\<open>while (IS_DIR_SEPARATOR (*s)) s++;\<close>\<close>

definition skip_separators :: "string \<Rightarrow> string" where
  "skip_separators s = dropWhile IS_DIR_SEPARATOR s"

text \<open>\<^verbatim>\<open>while (droot < pre && IS_DIR_SEPARATOR (*pre)) pre--;\<close>\<close>

function back_over_separators :: "string \<Rightarrow> int \<Rightarrow> int \<Rightarrow> int" where
  "back_over_separators d droot pre =
     (if droot < pre \<and> IS_DIR_SEPARATOR (d ! nat pre)
      then back_over_separators d droot (pre - 1) else pre)"
  by pat_completeness auto
termination
  by (relation "measure (\<lambda>(d, droot, pre). nat (pre - droot))") auto

text \<open>\<^verbatim>\<open>while (droot < pre && ! IS_DIR_SEPARATOR (*pre)) pre--;\<close>\<close>

function back_over_name :: "string \<Rightarrow> int \<Rightarrow> int \<Rightarrow> int" where
  "back_over_name d droot pre =
     (if droot < pre \<and> \<not> IS_DIR_SEPARATOR (d ! nat pre)
      then back_over_name d droot (pre - 1) else pre)"
  by pat_completeness auto
termination
  by (relation "measure (\<lambda>(d, droot, pre). nat (pre - droot))") auto

declare back_over_separators.simps [simp del] back_over_name.simps [simp del]

text \<open>
  The branch of the loop for a segment \<open>..\<close>, entered with \<^verbatim>\<open>s\<close> at the two dots
  (\<open>s\<close> here is what follows them). The result is the input left and the output.
\<close>

definition dot_dot_segment :: "string \<Rightarrow> string \<Rightarrow> nat \<Rightarrow> string \<times> string" where
  "dot_dot_segment s d droot =
     (let pre = back_over_separators d (int droot) (int (length d) - 1) in
      if int droot \<le> pre \<and> \<not> IS_DIR_SEPARATOR (d ! nat pre) then
        (let pre1 = back_over_name d (int droot) pre;
             pre2 = (if int droot < pre1 then pre1 + 1 else pre1)
         in if pre2 + 3 = int (length d) \<and> d ! nat pre2 = CHR ''.'' \<and> d ! nat (pre2 + 1) = CHR ''.''
            then (s, d @ ''..'')
            else (skip_separators s, take (nat pre2) d))
      else (s, d @ ''..''))"

text \<open>
  One turn of \<^verbatim>\<open>while (*s)\<close>, for an input that is not at its end: the segment, then the
  separator after it.
\<close>

fun path_segment :: "string \<Rightarrow> string \<Rightarrow> nat \<Rightarrow> string \<times> string" where
  "path_segment [] d droot = ([], d)"
| "path_segment (c # s) d droot =
     (if c = CHR ''.'' \<and> (s = [] \<or> IS_DIR_SEPARATOR (hd s)) then (skip_separators s, d)
      else if c = CHR ''.'' \<and> s \<noteq> [] \<and> hd s = CHR ''.''
              \<and> (tl s = [] \<or> IS_DIR_SEPARATOR (hd (tl s)))
      then dot_dot_segment (tl s) d droot
      else (dropWhile (\<lambda>x. \<not> IS_DIR_SEPARATOR x) (c # s),
            d @ takeWhile (\<lambda>x. \<not> IS_DIR_SEPARATOR x) (c # s)))"

definition canonicalize_step :: "string \<Rightarrow> string \<Rightarrow> nat \<Rightarrow> string \<times> string" where
  "canonicalize_step s d droot =
     (case path_segment s d droot of
        (s1, d1) \<Rightarrow>
          if s1 \<noteq> [] \<and> IS_DIR_SEPARATOR (hd s1) then (skip_separators (tl s1), d1 @ [hd s1])
          else (s1, d1))"

text \<open>The loop \<^verbatim>\<open>while (*s)\<close>: the output when the input is used up.\<close>

function canonicalize_loop :: "string \<Rightarrow> string \<Rightarrow> nat \<Rightarrow> string" where
  "canonicalize_loop s d droot =
     (if s = [] then d
      else (case canonicalize_step s d droot of (s', d') \<Rightarrow> canonicalize_loop s' d' droot))"
  by pat_completeness auto
termination
proof (relation "measure (\<lambda>(s, d, droot). length s)")
  show "wf (measure (\<lambda>(s, d, droot). length s))" by simp
next
  fix s d :: string and droot :: nat and s' d' :: string
  assume ne: "s \<noteq> []" and sd: "(s', d') = canonicalize_step s d droot"
  have st: "canonicalize_step s d droot = (s', d')" using sd by simp
  have "length s' < length s"
  proof -
    obtain c t where s: "s = c # t" using ne by (cases s) auto
    have dw: "length (dropWhile P xs) \<le> length xs" for P and xs :: string
      by (rule length_dropWhile_le)
    obtain s1 d1 where ps: "path_segment s d droot = (s1, d1)" by (cases "path_segment s d droot")
    have dd: "length (fst (dot_dot_segment u d droot)) \<le> length u" for u
      using dw[of IS_DIR_SEPARATOR u]
      by (simp add: dot_dot_segment_def Let_def skip_separators_def)
    have l1: "length s1 \<le> length s"
    proof -
      have "length (fst (path_segment (c # t) d droot)) \<le> length (c # t)"
        using dw[of IS_DIR_SEPARATOR t] dd[of "tl t"] dw[of "\<lambda>x. \<not> IS_DIR_SEPARATOR x" "c # t"]
        by (auto simp: skip_separators_def simp del: dropWhile.simps)
      then show ?thesis using ps s by simp
    qed
    have l2: "length s1 < length s" if "\<not> (s1 \<noteq> [] \<and> IS_DIR_SEPARATOR (hd s1))"
    proof -
      have "length (fst (path_segment (c # t) d droot)) < length (c # t)
            \<or> (fst (path_segment (c # t) d droot) \<noteq> [] \<and> IS_DIR_SEPARATOR (hd (fst (path_segment (c # t) d droot))))"
      proof (cases "c = CHR ''.'' \<and> (t = [] \<or> IS_DIR_SEPARATOR (hd t))")
        case True
        then show ?thesis using dw[of IS_DIR_SEPARATOR t] by (auto simp: skip_separators_def)
      next
        case F1: False
        show ?thesis
        proof (cases "c = CHR ''.'' \<and> t \<noteq> [] \<and> hd t = CHR ''.'' \<and> (tl t = [] \<or> IS_DIR_SEPARATOR (hd (tl t)))")
          case True
          then have "length (tl t) < length t" by (cases t) auto
          then show ?thesis using True F1 dd[of "tl t"] by auto
        next
          case False
          have eq: "path_segment (c # t) d droot =
                (dropWhile (\<lambda>x. \<not> IS_DIR_SEPARATOR x) (c # t),
                 d @ takeWhile (\<lambda>x. \<not> IS_DIR_SEPARATOR x) (c # t))"
            unfolding path_segment.simps if_not_P[OF F1] if_not_P[OF False] ..
          show ?thesis
          proof (cases "IS_DIR_SEPARATOR c")
            case True
            then show ?thesis unfolding eq by simp
          next
            case F3: False
            have "length (dropWhile (\<lambda>x. \<not> IS_DIR_SEPARATOR x) t) \<le> length t" by (rule dw)
            then show ?thesis unfolding eq using F3 by simp
          qed
        qed
      qed
      then show ?thesis using ps s that by auto
    qed
    show ?thesis
    proof (cases "s1 \<noteq> [] \<and> IS_DIR_SEPARATOR (hd s1)")
      case True
      have "canonicalize_step s d droot = (skip_separators (tl s1), d1 @ [hd s1])"
        unfolding canonicalize_step_def ps prod.case if_P[OF True] ..
      then have "s' = skip_separators (tl s1)" using st by simp
      moreover have "length (skip_separators (tl s1)) \<le> length (tl s1)"
        unfolding skip_separators_def by (rule dw)
      moreover have "length (tl s1) < length s1" using True by (cases s1) auto
      ultimately show ?thesis using l1 by simp
    next
      case False
      have "canonicalize_step s d droot = (s1, d1)"
        unfolding canonicalize_step_def ps prod.case if_not_P[OF False] ..
      then have "s' = s1" using st by simp
      then show ?thesis using l2[OF False] by simp
    qed
  qed
  then show "((s', d', droot), (s, d, droot)) \<in> measure (\<lambda>(s, d, droot). length s)" by simp
qed

declare canonicalize_loop.simps [simp del]

text \<open>\<^verbatim>\<open>while (droot < d && IS_DIR_SEPARATOR (d[-1])) --d;\<close>\<close>

function strip_trailing_separators :: "string \<Rightarrow> nat \<Rightarrow> string" where
  "strip_trailing_separators d droot =
     (if droot < length d \<and> IS_DIR_SEPARATOR (last d)
      then strip_trailing_separators (butlast d) droot else d)"
  by pat_completeness auto
termination
  by (relation "measure (\<lambda>(d, droot). length d)") auto

declare strip_trailing_separators.simps [simp del]

text \<open>
  \<^verbatim>\<open>canonicalize_path (s, d)\<close>: the string left at \<^verbatim>\<open>rv\<close>. The first pair is the state after
  the leading separators: one \<open>/\<close> is copied, a second one too when the path starts with
  exactly two, and the rest are skipped.
\<close>

definition canonicalize_root :: "string \<Rightarrow> string \<times> string" where
  "canonicalize_root s =
     (case s of
        [] \<Rightarrow> (s, [])
      | c # s1 \<Rightarrow>
          if IS_DIR_SEPARATOR c then
            (if s1 \<noteq> [] \<and> IS_DIR_SEPARATOR (hd s1)
                \<and> \<not> (tl s1 \<noteq> [] \<and> IS_DIR_SEPARATOR (hd (tl s1)))
             then (skip_separators (tl s1), [c, hd s1])
             else (skip_separators s1, [c]))
          else (s, []))"

definition canonicalize_path :: "string \<Rightarrow> string" where
  "canonicalize_path s =
     (case canonicalize_root s of
        (s0, d0) \<Rightarrow>
          (let droot = length d0;
               d1 = canonicalize_loop s0 d0 droot;
               d2 = strip_trailing_separators d1 droot
           in if d2 = [] then ''.'' else d2))"

section \<open>Segments of a path (notions the proofs about canonicalize\_path use)\<close>

text \<open>
  These are not functions of the program. They describe what its loop computes: the
  output written so far is the root followed by a stack of segments, each with its
  separator (\<open>flat\<close>); a segment of the input is dropped (\<open>.\<close>), pops the stack (\<open>..\<close> after a
  segment that is not \<open>..\<close>) or is pushed (\<open>push_segment\<close>); the result is the root followed
  by the segments with single separators between them (\<open>join_segments\<close>).
\<close>

definition flat :: "string list \<Rightarrow> string" where
  "flat stack = concat (map (\<lambda>g. g @ ''/'') stack)"

fun join_segments :: "string list \<Rightarrow> string" where
  "join_segments [] = []"
| "join_segments [g] = g"
| "join_segments (g # h # gs) = g @ ''/'' @ join_segments (h # gs)"

definition wf_segment :: "string \<Rightarrow> bool" where
  "wf_segment g = (g \<noteq> [] \<and> CHR ''/'' \<notin> set g)"

definition push_segment :: "string list \<Rightarrow> string \<Rightarrow> string list" where
  "push_segment stack g =
     (if g = ''.'' then stack
      else if g = ''..'' \<and> stack \<noteq> [] \<and> last stack \<noteq> ''..'' then butlast stack
      else stack @ [g])"

function segments :: "string \<Rightarrow> string list" where
  "segments s =
     (if s = [] then []
      else takeWhile (\<lambda>x. \<not> IS_DIR_SEPARATOR x) s
           # segments (skip_separators (dropWhile (\<lambda>x. \<not> IS_DIR_SEPARATOR x) s)))"
  by pat_completeness auto
termination
proof (relation "measure length")
  show "wf (measure length)" by simp
next
  fix s :: string
  assume ne: "s \<noteq> []"
  let ?r = "dropWhile (\<lambda>x. \<not> IS_DIR_SEPARATOR x) s"
  have a: "length ?r \<le> length s" by (rule length_dropWhile_le)
  have b: "length (skip_separators ?r) \<le> length ?r"
    unfolding skip_separators_def by (rule length_dropWhile_le)
  have "length (skip_separators ?r) < length s"
  proof (cases "IS_DIR_SEPARATOR (hd s)")
    case True
    then have "?r = s" using ne by (cases s) auto
    moreover have "length (skip_separators s) < length s"
      using True ne unfolding skip_separators_def
      by (cases s) (auto simp: le_imp_less_Suc length_dropWhile_le)
    ultimately show ?thesis by simp
  next
    case False
    then have "length ?r < length s"
      using ne by (cases s) (auto simp: le_imp_less_Suc length_dropWhile_le)
    then show ?thesis using b by simp
  qed
  then show "(skip_separators ?r, s) \<in> measure length" by simp
qed

declare segments.simps [simp del]

text \<open>
  A stack the loop can leave behind: some segments \<open>..\<close>, then segments that are neither
  \<open>.\<close> nor \<open>..\<close>.
\<close>

definition canonical_stack :: "string list \<Rightarrow> bool" where
  "canonical_stack st =
     list_all (\<lambda>g. wf_segment g \<and> g \<noteq> ''.'' \<and> g \<noteq> ''..'') (dropWhile (\<lambda>g. g = ''..'') st)"

section \<open>Line tables (get\_line\_table, read\_dwarf2\_line, edit\_dwarf2\_line)\<close>

text \<open>
  \<^verbatim>\<open>struct line_table\<close>, without the back pointer to the first CU that names the table
  (nothing below reads it). \<^verbatim>\<open>old_idx\<close> and \<^verbatim>\<open>new_idx\<close> are \<^verbatim>\<open>size_t\<close> offsets,
  \<^verbatim>\<open>size_diff\<close> is an \<^verbatim>\<open>ssize_t\<close>; \<^verbatim>\<open>line_base\<close> is kept as the byte that is stored.
\<close>

record line_table =
  old_idx :: nat
  new_idx :: nat
  size_diff :: int
  replace_dirs :: bool
  replace_files :: bool
  unit_length :: uint32
  version :: "16 word"
  header_length :: uint32
  min_instr_len :: byte
  max_op_per_instr :: byte
  default_is_stmt :: byte
  line_base :: byte
  line_range :: byte
  opcode_base :: byte

text \<open>
  \<^verbatim>\<open>struct debug_lines\<close>: \<open>table\<close> holds the \<^verbatim>\<open>used\<close> entries of the array (its growth
  by \<^verbatim>\<open>realloc\<close> is taken to succeed) and \<^verbatim>\<open>debug_lines_len\<close> is the \<^verbatim>\<open>size_t\<close> total that
  phase zero accumulates. \<^verbatim>\<open>line_buf\<close> is the section \<open>edit_dwarf2_line\<close> returns.
\<close>

record debug_lines =
  table :: "line_table list"
  debug_lines_len :: nat

text \<open>
  Bytes of a section and characters of a path are the same eight bits. \<^verbatim>\<open>read_8\<close> is
  \<^verbatim>\<open>*ptr++\<close> at an offset, \<open>None\<close> outside the section. \<open>str_at\<close> reads the C string a
  pointer into a section points to, the pointer being the bytes from it to the end of the
  section: \<open>None\<close> when no NUL follows.
\<close>

definition byte_of_char :: "char \<Rightarrow> byte" where
  "byte_of_char c = of_char c"

definition char_of_byte :: "byte \<Rightarrow> char" where
  "char_of_byte b = char_of (unat b)"

definition str_bytes :: "string \<Rightarrow> byte list" where
  "str_bytes s = map byte_of_char s"

definition read_8 :: "byte list \<Rightarrow> nat \<Rightarrow> byte option" where
  "read_8 d p = (if p < length d then Some (d ! p) else None)"

definition str_at :: "byte list \<Rightarrow> string option" where
  "str_at rptr =
     (if 0 \<in> set rptr then Some (map char_of_byte (takeWhile (\<lambda>b. b \<noteq> 0) rptr)) else None)"

definition on_read :: "'a option \<Rightarrow> ('a \<Rightarrow> error + 'b) \<Rightarrow> error + 'b" where
  "on_read r k = (case r of None \<Rightarrow> Inl UB | Some v \<Rightarrow> k v)"

text \<open>
  \<^verbatim>\<open>get_line_table (dso, off, &table, cu)\<close>. The result is the returned flag, \<^verbatim>\<open>*table\<close>
  and the registry. \<open>sec\<close> is the data of \<^verbatim>\<open>.debug_line\<close> (\<open>None\<close> for a null pointer),
  \<open>ptr_size\<close> is \<^verbatim>\<open>cu->ptr_size\<close>. A table is appended to the registry only on the last
  line (\<^verbatim>\<open>lines->used++\<close>); every error message leaves the registry as it was.
  \<^verbatim>\<open>max_op_per_instr\<close> is not assigned for a version below 4 and is never read then; it
  is 0 here. \<open>get_line_table_fields\<close> is the part from \<^verbatim>\<open>header_length\<close> on, \<open>p\<close> being
  \<^verbatim>\<open>ptr\<close> there.
\<close>

definition get_line_table_fields ::
  "endian \<Rightarrow> byte list \<Rightarrow> debug_lines \<Rightarrow> nat \<Rightarrow> uint32 \<Rightarrow> 16 word \<Rightarrow> nat \<Rightarrow> nat
     \<Rightarrow> error + (bool \<times> line_table option \<times> debug_lines)" where
  "get_line_table_fields e d lines off ul v endcu p =
     on_read (do_read_32 e d p) (\<lambda>hl.
       let endprol = p + 4 + unat hl in
       if endprol > endcu then Inr (False, None, lines)
       else
         on_read (read_8 d (p + 4)) (\<lambda>mil.
         on_read (if 4 \<le> v then read_8 d (p + 5) else Some 0) (\<lambda>mopi.
         let q = (if 4 \<le> v then p + 6 else p + 5) in
         on_read (read_8 d q) (\<lambda>dis.
         on_read (read_8 d (q + 1)) (\<lambda>lb.
         on_read (read_8 d (q + 2)) (\<lambda>lr.
         on_read (read_8 d (q + 3)) (\<lambda>ob.
           if int endcu \<le> int (q + 4) + uint ob - 1 then Inr (False, None, lines)
           else
             let t = \<lparr>old_idx = off, new_idx = off, size_diff = 0, replace_dirs = False,
                      replace_files = False, unit_length = ul, version = v,
                      header_length = hl, min_instr_len = mil, max_op_per_instr = mopi,
                      default_is_stmt = dis, line_base = lb, line_range = lr,
                      opcode_base = ob\<rparr>
             in Inr (True, Some t, lines\<lparr>table := table lines @ [t]\<rparr>))))))))"

definition get_line_table ::
  "endian \<Rightarrow> byte list option \<Rightarrow> debug_lines \<Rightarrow> nat \<Rightarrow> int
     \<Rightarrow> error + (bool \<times> line_table option \<times> debug_lines)" where
  "get_line_table e sec lines off ptr_size =
     (case find (\<lambda>t. old_idx t = off) (table lines) of
        Some t \<Rightarrow> Inr (False, Some t, lines)
      | None \<Rightarrow>
          (case sec of
             None \<Rightarrow> Inr (False, None, lines)
           | Some d \<Rightarrow>
               if off > length d then Inr (False, None, lines)
               else
                 on_read (do_read_32 e d off) (\<lambda>ul.
                   let endcu = off + 4 + unat ul in
                   if ul = 0xffffffff then Inr (False, None, lines)
                   else if endcu > length d then Inr (False, None, lines)
                   else
                     on_read (do_read_16 e d (off + 4)) (\<lambda>v.
                       if v \<noteq> 2 \<and> v \<noteq> 3 \<and> v \<noteq> 4 \<and> v \<noteq> 5 then Inr (False, None, lines)
                       else if 5 \<le> v then
                         (if ptr_size = 0 then Inl (AssertFail ''cu->ptr_size != 0'')
                          else
                            on_read (read_8 d (off + 6)) (\<lambda>address_size.
                              if ptr_size \<noteq> uint address_size then Inr (False, None, lines)
                              else
                                on_read (read_8 d (off + 7)) (\<lambda>segment_selector_size.
                                  get_line_table_fields e d lines off ul v endcu (off + 8))))
                       else get_line_table_fields e d lines off ul v endcu (off + 6)))))"

text \<open>
  What replacing the prefix of one directory or file name does to the size of the table,
  as \<^verbatim>\<open>read_dwarf4_line\<close> computes it in both of its loops: \<open>None\<close> when the name is left
  alone (\<^verbatim>\<open>base_dir\<close> or \<^verbatim>\<open>dest_dir\<close> not given, or the name not under \<^verbatim>\<open>base_dir\<close>),
  otherwise \<^verbatim>\<open>new_size - old_size\<close>.
\<close>

definition path_size_diff :: "string option \<Rightarrow> string option \<Rightarrow> string \<Rightarrow> int option" where
  "path_size_diff base dest path =
     (case (base, dest) of
        (Some base_dir, Some dest_dir) \<Rightarrow>
          (case skip_dir_prefix path base_dir of
             None \<Rightarrow> None
           | Some file_path \<Rightarrow>
               let old_size = length path + 1;
                   file_len = length file_path;
                   new_size = length dest_dir + 1 + (if 0 < file_len then 1 + file_len else 0)
               in Some (int new_size - int old_size))
      | _ \<Rightarrow> None)"

text \<open>
  \<^verbatim>\<open>read_dwarf4_line\<close>, the directory loop: \<open>ptr\<close> is the bytes from the pointer to the end
  of the section, the result is the pointer at the terminating 0 of the directory table,
  the table and the count \<^verbatim>\<open>value\<close> (one more than the number of directories, which is
  \<^verbatim>\<open>dirt_cnt\<close> after the second pass over the same bytes).
\<close>

function read_dwarf4_dirs ::
  "string option \<Rightarrow> string option \<Rightarrow> byte list \<Rightarrow> line_table \<Rightarrow> nat
     \<Rightarrow> error + (byte list \<times> line_table \<times> nat)" where
  "read_dwarf4_dirs base dest rptr t val =
     (case rptr of
        [] \<Rightarrow> Inl UB
      | b # _ \<Rightarrow>
          if b = 0 then Inr (rptr, t, val)
          else
            (case str_at rptr of
               None \<Rightarrow> Inl UB
             | Some dir \<Rightarrow>
                 let t' = (case path_size_diff base dest dir of
                             None \<Rightarrow> t
                           | Some diff \<Rightarrow> t\<lparr>size_diff := size_diff t + diff, replace_dirs := True\<rparr>)
                 in read_dwarf4_dirs base dest (drop (length dir + 1) rptr) t' (val + 1)))"
  by pat_completeness auto
termination
  by (relation "measure (\<lambda>(base, dest, rptr, t, val). length rptr)") auto

declare read_dwarf4_dirs.simps [simp del]

text \<open>
  \<^verbatim>\<open>read_dwarf4_line\<close>, the file loop. The loop also builds the full path of each file and
  writes it to the source list; no source list is open here (\<^verbatim>\<open>list_file_fd\<close> is -1) and
  the \<^verbatim>\<open>malloc\<close> for the path is taken to succeed, so that part stores nothing. The result is
  the value returned and the table.
\<close>

function read_dwarf4_files ::
  "string option \<Rightarrow> string option \<Rightarrow> byte list \<Rightarrow> line_table \<Rightarrow> nat
     \<Rightarrow> error + (bool \<times> line_table)" where
  "read_dwarf4_files base dest rptr t dirt_cnt =
     (case rptr of
        [] \<Rightarrow> Inl UB
      | b # _ \<Rightarrow>
          if b = 0 then Inr (True, t)
          else
            (case str_at rptr of
               None \<Rightarrow> Inl UB
             | Some file \<Rightarrow>
                 (case read_uleb128 (drop (length file + 1) rptr) of
                    None \<Rightarrow> Inl UB
                  | Some (val, rptr1) \<Rightarrow>
                      if dirt_cnt \<le> unat val then Inr (False, t)
                      else
                        let t' = (case path_size_diff base dest file of
                                    None \<Rightarrow> t
                                  | Some diff \<Rightarrow>
                                      t\<lparr>size_diff := size_diff t + diff, replace_files := True\<rparr>)
                        in (case read_uleb128 rptr1 of
                              None \<Rightarrow> Inl UB
                            | Some (mtime, rptr2) \<Rightarrow>
                                (case read_uleb128 rptr2 of
                                   None \<Rightarrow> Inl UB
                                 | Some (len, rptr3) \<Rightarrow>
                                     read_dwarf4_files base dest rptr3 t' dirt_cnt)))))"
  by pat_completeness auto
termination
proof (relation "measure (\<lambda>(base, dest, rptr, t, dirt_cnt). length rptr)")
  show "wf (measure (\<lambda>(base, dest, rptr, t, dirt_cnt). length rptr))" by simp
next
  fix base dest :: "string option" and rptr :: "byte list" and t t' :: line_table
    and dirt_cnt :: nat and b :: byte and bs :: "byte list" and fname :: string
    and x :: "uint32 \<times> byte list" and val :: uint32 and rptr1 :: "byte list"
    and y :: "uint32 \<times> byte list" and mtime :: uint32 and rptr2 :: "byte list"
    and z :: "uint32 \<times> byte list" and len :: uint32 and rptr3 :: "byte list"
  assume a: "rptr = b # bs"
    and r1: "read_uleb128 (drop (length fname + 1) rptr) = Some x" "(val, rptr1) = x"
    and r2: "read_uleb128 rptr1 = Some y" "(mtime, rptr2) = y"
    and r3: "read_uleb128 rptr2 = Some z" "(len, rptr3) = z"
  have loop: "\<And>bs ret shift r s rest.
      read_uleb128_loop bs ret shift = Some (r, s, rest) \<Longrightarrow> length rest < length bs"
  proof -
    fix bs :: "byte list" and ret :: uint32 and shift :: nat and r s rest
    show "read_uleb128_loop bs ret shift = Some (r, s, rest) \<Longrightarrow> length rest < length bs"
    proof (induction bs arbitrary: ret shift)
      case Nil
      then show ?case by simp
    next
      case (Cons c cs)
      then show ?case
        by (fastforce simp add: Let_def split: if_splits)
    qed
  qed
  have shrink: "\<And>bs r rest. read_uleb128 bs = Some (r, rest) \<Longrightarrow> length rest < length bs"
    unfolding read_uleb128_def using loop by (fastforce split: option.splits)
  have "length rptr3 < length rptr2" using shrink r3 by metis
  moreover have "length rptr2 < length rptr1" using shrink r2 by metis
  moreover have "length rptr1 < length (drop (length fname + 1) rptr)" using shrink r1 by metis
  ultimately have "length rptr3 < length rptr" by simp
  then show "((base, dest, rptr3, t', dirt_cnt), base, dest, rptr, t, dirt_cnt)
      \<in> measure (\<lambda>(base, dest, rptr, t, dirt_cnt). length rptr)"
    by simp
qed

declare read_dwarf4_files.simps [simp del]

text \<open>
  \<^verbatim>\<open>read_dwarf4_line (dso, ptr, comp_dir, table)\<close>: the directory table, one byte for
  its terminator, the file table.
\<close>

definition read_dwarf4_line ::
  "string option \<Rightarrow> string option \<Rightarrow> byte list \<Rightarrow> line_table \<Rightarrow> error + (bool \<times> line_table)" where
  "read_dwarf4_line base dest rptr t =
     (case read_dwarf4_dirs base dest rptr t 1 of
        Inl x \<Rightarrow> Inl x
      | Inr (rptr', t', dirt_cnt) \<Rightarrow> read_dwarf4_files base dest (drop 1 rptr') t' dirt_cnt)"

text \<open>
  \<^verbatim>\<open>read_dwarf2_line (dso, off, comp_dir, cu)\<close>. \<^verbatim>\<open>table\<close> points at the last entry of the
  registry, so what \<^verbatim>\<open>read_dwarf4_line\<close> stores in the table is stored there, also when
  it then fails. The sum \<^verbatim>\<open>4 + table->unit_length\<close> is an \<^verbatim>\<open>unsigned int\<close>; adding the
  \<^verbatim>\<open>ssize_t\<close> and the \<^verbatim>\<open>size_t\<close> total is done in 64 bits. A version 5 table keeps its
  size and is not read here.
\<close>

definition read_dwarf2_line ::
  "endian \<Rightarrow> string option \<Rightarrow> string option \<Rightarrow> byte list option \<Rightarrow> debug_lines \<Rightarrow> nat \<Rightarrow> int
     \<Rightarrow> error + (bool \<times> debug_lines)" where
  "read_dwarf2_line e base dest sec lines off ptr_size =
     (case get_line_table e sec lines off ptr_size of
        Inl x \<Rightarrow> Inl x
      | Inr (fresh, None, lines') \<Rightarrow> Inr (False, lines')
      | Inr (fresh, Some t, lines') \<Rightarrow>
          if \<not> fresh then Inr (False, lines')
          else
            (case sec of
               None \<Rightarrow> Inl UB
             | Some d \<Rightarrow>
                 let rptr = drop (off + 4 + 2 + (if version t < 5 then 0 else 2) + 4 + 1
                                 + (if 4 \<le> version t then 1 else 0) + 1 + 1 + 1 + 1
                                 + unat (opcode_base t) - 1) d;
                     r = (if version t < 5 then read_dwarf4_line base dest rptr t
                          else Inr (True, t))
                 in (case r of
                       Inl x \<Rightarrow> Inl x
                     | Inr (ok, t') \<Rightarrow>
                         let lines'' = lines'\<lparr>table := butlast (table lines') @ [t']\<rparr> in
                         if \<not> ok then Inr (False, lines'')
                         else
                           Inr (replace_dirs t' \<or> replace_files t',
                                lines''\<lparr>debug_lines_len :=
                                   nat ((int (debug_lines_len lines'') + uint (4 + unit_length t')
                                         + size_diff t') mod 2 ^ 64)\<rparr>))))"

text \<open>
  The bytes the fixed-width writers store, in order (\<^verbatim>\<open>write_16\<close>, \<^verbatim>\<open>write_32\<close> on the
  new buffer, whose pointer only moves forward).
\<close>

definition write_16_bytes :: "endian \<Rightarrow> 16 word \<Rightarrow> byte list" where
  "write_16_bytes e v =
     (case e of ELFDATA2LSB \<Rightarrow> [ucast v, ucast (drop_bit 8 v)]
              | ELFDATA2MSB \<Rightarrow> [ucast (drop_bit 8 v), ucast v])"

definition write_32_bytes :: "endian \<Rightarrow> uint32 \<Rightarrow> byte list" where
  "write_32_bytes e v =
     (case e of
        ELFDATA2LSB \<Rightarrow> [ucast v, ucast (drop_bit 8 v), ucast (drop_bit 16 v), ucast (drop_bit 24 v)]
      | ELFDATA2MSB \<Rightarrow> [ucast (drop_bit 24 v), ucast (drop_bit 16 v), ucast (drop_bit 8 v), ucast v])"

text \<open>
  What \<^verbatim>\<open>edit_dwarf2_line\<close> stores for one directory or file name whose prefix it
  replaces: \<^verbatim>\<open>dest_dir\<close>, then a slash and the rest of the path when there is a rest,
  then the NUL. \<open>None\<close> when the name is not under \<^verbatim>\<open>base_dir\<close>.
\<close>

definition replaced_path :: "string \<Rightarrow> string \<Rightarrow> string \<Rightarrow> byte list option" where
  "replaced_path base_dir dest_dir path =
     (case skip_dir_prefix path base_dir of
        None \<Rightarrow> None
      | Some file_path \<Rightarrow>
          Some (str_bytes dest_dir
                @ (if 0 < length file_path then byte_of_char (CHR ''/'') # str_bytes file_path
                   else [])
                @ [0]))"

text \<open>
  \<^verbatim>\<open>edit_dwarf2_line\<close>, the directory loop of one table: \<open>optr\<close> is the bytes from the
  read pointer to the end of the old section, \<open>out\<close> the bytes stored so far. A name that
  is not replaced is copied with its NUL.
\<close>

function edit_line_dirs ::
  "string \<Rightarrow> string \<Rightarrow> bool \<Rightarrow> byte list \<Rightarrow> byte list \<Rightarrow> error + (byte list \<times> byte list)" where
  "edit_line_dirs base_dir dest_dir rd optr out =
     (case optr of
        [] \<Rightarrow> Inl UB
      | b # _ \<Rightarrow>
          if b = 0 then Inr (optr, out)
          else
            (case str_at optr of
               None \<Rightarrow> Inl UB
             | Some dir \<Rightarrow>
                 let w = (case (if rd then replaced_path base_dir dest_dir dir else None) of
                            Some w \<Rightarrow> w
                          | None \<Rightarrow> take (length dir + 1) optr)
                 in edit_line_dirs base_dir dest_dir rd (drop (length dir + 1) optr) (out @ w)))"
  by pat_completeness auto
termination
  by (relation "measure (\<lambda>(base_dir, dest_dir, rd, optr, out). length optr)") auto

declare edit_line_dirs.simps [simp del]

text \<open>
  The file loop, entered only when \<^verbatim>\<open>replace_files\<close> is set: the name, then the
  directory index, the time and the length, each read with \<^verbatim>\<open>read_uleb128\<close> and stored
  again with \<^verbatim>\<open>write_uleb128\<close>.
\<close>

function edit_line_files ::
  "string \<Rightarrow> string \<Rightarrow> byte list \<Rightarrow> byte list \<Rightarrow> error + (byte list \<times> byte list)" where
  "edit_line_files base_dir dest_dir optr out =
     (case optr of
        [] \<Rightarrow> Inl UB
      | b # _ \<Rightarrow>
          if b = 0 then Inr (optr, out)
          else
            (case str_at optr of
               None \<Rightarrow> Inl UB
             | Some file \<Rightarrow>
                 let w = (case replaced_path base_dir dest_dir file of
                            Some w \<Rightarrow> w
                          | None \<Rightarrow> take (length file + 1) optr)
                 in (case read_uleb128 (drop (length file + 1) optr) of
                       None \<Rightarrow> Inl UB
                     | Some (dir_idx, optr1) \<Rightarrow>
                         (case read_uleb128 optr1 of
                            None \<Rightarrow> Inl UB
                          | Some (mtime, optr2) \<Rightarrow>
                              (case read_uleb128 optr2 of
                                 None \<Rightarrow> Inl UB
                               | Some (len, optr3) \<Rightarrow>
                                   edit_line_files base_dir dest_dir optr3
                                     (out @ w @ write_uleb128 dir_idx @ write_uleb128 mtime
                                      @ write_uleb128 len))))))"
  by pat_completeness auto
termination
proof (relation "measure (\<lambda>(base_dir, dest_dir, optr, out). length optr)")
  show "wf (measure (\<lambda>(base_dir, dest_dir, optr, out). length optr))" by simp
next
  fix base_dir dest_dir :: string and optr out w :: "byte list" and b :: byte
    and bs :: "byte list" and fname :: string
    and x :: "uint32 \<times> byte list" and dir_idx :: uint32 and optr1 :: "byte list"
    and y :: "uint32 \<times> byte list" and mtime :: uint32 and optr2 :: "byte list"
    and z :: "uint32 \<times> byte list" and len :: uint32 and optr3 :: "byte list"
  assume a: "optr = b # bs"
    and r1: "read_uleb128 (drop (length fname + 1) optr) = Some x" "(dir_idx, optr1) = x"
    and r2: "read_uleb128 optr1 = Some y" "(mtime, optr2) = y"
    and r3: "read_uleb128 optr2 = Some z" "(len, optr3) = z"
  have loop: "\<And>bs ret shift r s rest.
      read_uleb128_loop bs ret shift = Some (r, s, rest) \<Longrightarrow> length rest < length bs"
  proof -
    fix bs :: "byte list" and ret :: uint32 and shift :: nat and r s rest
    show "read_uleb128_loop bs ret shift = Some (r, s, rest) \<Longrightarrow> length rest < length bs"
    proof (induction bs arbitrary: ret shift)
      case Nil
      then show ?case by simp
    next
      case (Cons c cs)
      then show ?case
        by (fastforce simp add: Let_def split: if_splits)
    qed
  qed
  have shrink: "\<And>bs r rest. read_uleb128 bs = Some (r, rest) \<Longrightarrow> length rest < length bs"
    unfolding read_uleb128_def using loop by (fastforce split: option.splits)
  have "length optr3 < length optr2" using shrink r3 by metis
  moreover have "length optr2 < length optr1" using shrink r2 by metis
  moreover have "length optr1 < length (drop (length fname + 1) optr)" using shrink r1 by metis
  ultimately have "length optr3 < length optr" by simp
  then show "((base_dir, dest_dir, optr3,
               out @ w @ write_uleb128 dir_idx @ write_uleb128 mtime @ write_uleb128 len),
              base_dir, dest_dir, optr, out)
      \<in> measure (\<lambda>(base_dir, dest_dir, optr, out). length optr)"
    by simp
qed

declare edit_line_files.simps [simp del]

text \<open>
  The body of the loop of \<^verbatim>\<open>edit_dwarf2_line\<close> for one table: the bytes it stores through
  \<^verbatim>\<open>ptr\<close>, in order. \<^verbatim>\<open>memcpy\<close> reading past the end of the old section, or with a length
  that is negative before its conversion to \<^verbatim>\<open>size_t\<close>, is \<open>UB\<close>. The sums
  \<^verbatim>\<open>t->unit_length + 4\<close> are \<^verbatim>\<open>unsigned int\<close>; the header fields are stored through a
  \<^verbatim>\<open>uint32_t\<close> parameter.
\<close>

definition copy_bytes :: "byte list \<Rightarrow> int \<Rightarrow> byte list option" where
  "copy_bytes optr n = (if 0 \<le> n \<and> n \<le> int (length optr) then Some (take (nat n) optr) else None)"

definition edit_line_table ::
  "endian \<Rightarrow> string \<Rightarrow> string \<Rightarrow> byte list \<Rightarrow> line_table \<Rightarrow> error + byte list" where
  "edit_line_table e base_dir dest_dir old_buf t =
     (let optr0 = drop (old_idx t) old_buf in
      if \<not> replace_dirs t \<and> \<not> replace_files t then
        (if size_diff t \<noteq> 0 then Inl (AssertFail ''t->size_diff == 0'')
         else on_read (copy_bytes optr0 (uint (unit_length t + 4))) Inr)
      else
        (let header =
               write_32_bytes e (word_of_int (uint (unit_length t) + size_diff t))
               @ write_16_bytes e (version t)
               @ write_32_bytes e (word_of_int (uint (header_length t) + size_diff t))
               @ [min_instr_len t]
               @ (if 4 \<le> version t then [max_op_per_instr t] else [])
               @ [default_is_stmt t, line_base t, line_range t, opcode_base t];
             optr1 = drop (4 + 2 + 4 + 1 + (if 4 \<le> version t then 1 else 0) + 1 + 1 + 1 + 1) optr0
         in
           on_read (copy_bytes optr1 (uint (opcode_base t) - 1)) (\<lambda>opcodes.
             (case edit_line_dirs base_dir dest_dir (replace_dirs t)
                     (drop (length opcodes) optr1) (header @ opcodes) of
                Inl x \<Rightarrow> Inl x
              | Inr (optr2, out2) \<Rightarrow>
                  (case (if replace_files t
                         then (case edit_line_files base_dir dest_dir (drop 1 optr2) (out2 @ [0]) of
                                 Inl x \<Rightarrow> Inl x
                               | Inr (optr3, out3) \<Rightarrow> Inr (drop 1 optr3, out3 @ [0]))
                         else Inr (drop 1 optr2, out2 @ [0])) of
                     Inl x \<Rightarrow> Inl x
                   | Inr (optr4, out4) \<Rightarrow>
                       let remaining = uint (unit_length t + 4)
                                       - (int (length optr0) - int (length optr4))
                       in on_read (copy_bytes optr4 remaining) (\<lambda>rest. Inr (out4 @ rest)))))))"

text \<open>
  The loop over the sorted registry. \<open>out\<close> is what has been stored in the new buffer so
  far, so \<^verbatim>\<open>ptr - linedata->d_buf\<close> is its length; \<open>cap\<close> is the size of the buffer, and
  storing past it is \<open>UB\<close>.
\<close>

fun edit_line_tables ::
  "endian \<Rightarrow> string \<Rightarrow> string \<Rightarrow> byte list \<Rightarrow> nat \<Rightarrow> line_table list \<Rightarrow> byte list
     \<Rightarrow> error + (line_table list \<times> byte list)" where
  "edit_line_tables e base_dir dest_dir old_buf cap [] out = Inr ([], out)"
| "edit_line_tables e base_dir dest_dir old_buf cap (t # ts) out =
     (case edit_line_table e base_dir dest_dir old_buf t of
        Inl x \<Rightarrow> Inl x
      | Inr w \<Rightarrow>
          if cap < length out + length w then Inl UB
          else
            (case edit_line_tables e base_dir dest_dir old_buf cap ts (out @ w) of
               Inl x \<Rightarrow> Inl x
             | Inr (ts', out') \<Rightarrow> Inr (t\<lparr>new_idx := length out\<rparr> # ts', out')))"

text \<open>
  \<^verbatim>\<open>edit_dwarf2_line (dso)\<close>. The new section is a \<^verbatim>\<open>malloc\<close> block of
  \<^verbatim>\<open>debug_lines_len\<close> bytes (the allocation is taken to succeed); \<open>line_buf\<close> gives the
  indeterminate content the block has before anything is stored in it. The registry is
  sorted on \<^verbatim>\<open>old_idx\<close> with \<^verbatim>\<open>qsort\<close>; no two entries have the same \<^verbatim>\<open>old_idx\<close>
  (\<^verbatim>\<open>get_line_table\<close> adds an offset once), so the order is the one \<open>sort_key\<close> gives.
  The result is the registry and the bytes of the new section, \<^verbatim>\<open>d_size\<close> of them.
\<close>

definition edit_dwarf2_line ::
  "endian \<Rightarrow> string \<Rightarrow> string \<Rightarrow> byte list \<Rightarrow> (nat \<Rightarrow> byte) \<Rightarrow> debug_lines
     \<Rightarrow> error + (debug_lines \<times> byte list)" where
  "edit_dwarf2_line e base_dir dest_dir old_buf line_buf lines =
     (case edit_line_tables e base_dir dest_dir old_buf (debug_lines_len lines)
             (sort_key old_idx (table lines)) [] of
        Inl x \<Rightarrow> Inl x
      | Inr (ts, out) \<Rightarrow>
          Inr (lines\<lparr>table := ts\<rparr>,
               out @ map line_buf [length out ..< debug_lines_len lines]))"

section \<open>Proofs: byte codec\<close>

lemma bit_0x7f_int: "bit (0x7f :: int) n \<longleftrightarrow> n < 7"
proof -
  have "(0x7f :: int) = mask 7" by (simp add: mask_eq_exp_minus_1)
  then show ?thesis by (simp only: bit_mask_iff possible_bit_def) simp
qed

lemma bit_0x80_int: "bit (0x80 :: int) n \<longleftrightarrow> n = 7"
proof -
  have "(0x80 :: int) = 2 ^ 7" by simp
  then show ?thesis by (simp only: bit_exp_iff possible_bit_def) simp
qed

lemma bit_0x7f: "bit (0x7f :: 'a::len word) n \<longleftrightarrow> n < 7 \<and> n < LENGTH('a)"
  by (auto simp: bit_simps bit_0x7f_int)

lemma bit_0x80: "bit (0x80 :: 'a::len word) n \<longleftrightarrow> n = 7 \<and> n < LENGTH('a)"
  by (auto simp: bit_simps bit_0x80_int)

lemmas ubits = bit_simps bit_0x7f_int bit_0x80_int

lemma low7_or_rest: "(v AND 0x7f) OR push_bit 7 (drop_bit 7 v) = (v::uint32)"
proof (rule bit_eqI)
  fix n
  show "bit ((v AND 0x7f) OR push_bit 7 (drop_bit 7 v)) n = bit v n"
    by (cases "n < 7") (auto simp: ubits dest: bit_imp_le_length)
qed

lemma group_of_cont_byte: "(ucast ((ucast (v AND 0x7f) :: byte) OR 0x80) :: uint32) AND 0x7f = v AND 0x7f"
  by (rule bit_eqI) (auto simp: ubits)
lemma cont_byte_flag: "(ucast ((ucast (v AND 0x7f) :: byte) OR 0x80) :: uint32) AND 0x80 \<noteq> 0"
proof -
  have "bit ((ucast ((ucast (v AND 0x7f) :: byte) OR 0x80) :: uint32) AND 0x80) 7"
    by (auto simp: ubits)
  then show ?thesis by auto
qed
lemma group_of_last_byte: "(ucast ((ucast ((v::uint32) AND 0x7f) :: byte)) :: uint32) = v AND 0x7f"
  by (rule bit_eqI) (auto simp: ubits)
lemma last_byte_flag: "((v::uint32) AND 0x7f) AND 0x80 = 0"
  by (rule bit_eqI) (auto simp: ubits)

lemma read_uleb128_loop_write:
  "read_uleb128_loop (write_uleb128 v @ rest) ret shift
     = Some (ret OR push_bit shift v, shift + 7 * length (write_uleb128 v), rest)"
proof (induction v arbitrary: ret shift rule: write_uleb128.induct)
  case (1 valv)
  show ?case
  proof (cases "drop_bit 7 valv = 0")
    case True
    then have w: "write_uleb128 valv = [ucast (valv AND 0x7f)]"
      by (simp add: write_uleb128.simps)
    have e: "valv AND 0x7f = valv" using low7_or_rest[of valv] True by simp
    have "read_uleb128_loop (ucast (valv AND 0x7f) # rest) ret shift 
      = Some (ret OR push_bit shift (valv AND 0x7f), shift + 7, rest)"
      by (simp add: group_of_last_byte last_byte_flag Let_def del: push_bit_and)
    then show ?thesis unfolding w by (simp add: e)
  next
    case False
    then have w: "write_uleb128 valv = (ucast (valv AND 0x7f) OR 0x80) # write_uleb128 (drop_bit 7 valv)"
      by (simp add: write_uleb128.simps Let_def)
    have ih: "read_uleb128_loop (write_uleb128 (drop_bit 7 valv) @ rest) r s
     = Some (r OR push_bit s (drop_bit 7 valv), s + 7 * length (write_uleb128 (drop_bit 7 valv)), rest)" for r s
      using 1[OF refl refl False] by simp
    have "push_bit shift (valv AND 0x7f) OR push_bit (shift + 7) (drop_bit 7 valv) = push_bit shift valv"
    proof -
      have "push_bit shift ((valv AND 0x7f) OR push_bit 7 (drop_bit 7 valv)) = push_bit shift valv"
        by (simp only: low7_or_rest)
      then show ?thesis by (simp add: push_bit_or push_bit_push_bit add.commute del: push_bit_and)
    qed
    then show ?thesis unfolding w
      by (simp add: Let_def group_of_cont_byte cont_byte_flag ih or.assoc del: push_bit_and)
  qed
qed

lemma drop_bit7_eq_0: "drop_bit 7 (v::uint32) = 0 \<longleftrightarrow> unat v < 128"
proof -
  have "unat (drop_bit 7 v) = unat v div 128" by (simp add: drop_bit_eq_div unat_div)
  then show ?thesis by (metis div_eq_0_iff unat_eq_0 zero_neq_numeral zero_less_numeral div_less less_numeral_extra(3))
qed

lemma length_write_uleb128_le:
  "length (write_uleb128 v) \<le> n \<longleftrightarrow> 1 \<le> n \<and> unat v < 2 ^ (7 * n)"
proof (induction v arbitrary: n rule: write_uleb128.induct)
  case (1 valv)
  have u: "unat (drop_bit 7 valv) = unat valv div 128" by (simp add: drop_bit_eq_div unat_div)
  show ?case
  proof (cases "drop_bit 7 valv = 0")
    case True
    then have w: "write_uleb128 valv = [ucast (valv AND 0x7f)]"
      by (simp add: write_uleb128.simps)
    have "unat valv < 2 ^ 7" using True drop_bit7_eq_0 by simp
    moreover have "(2::nat) ^ 7 \<le> 2 ^ (7 * n)" if "1 \<le> n" using that by (intro power_increasing) auto
    ultimately show ?thesis unfolding w by fastforce
  next
    case False
    then have w: "write_uleb128 valv = (ucast (valv AND 0x7f) OR 0x80) # write_uleb128 (drop_bit 7 valv)"
      by (simp add: write_uleb128.simps Let_def)
    have ih: "length (write_uleb128 (drop_bit 7 valv)) \<le> m \<longleftrightarrow> 1 \<le> m \<and> unat valv div 128 < 2 ^ (7 * m)" for m
      using 1[OF refl refl False, of m] u by simp
    have big: "128 \<le> unat valv" using False drop_bit7_eq_0 by simp
    show ?thesis
    proof (cases n)
      case 0
      then show ?thesis unfolding w by simp
    next
      case (Suc m)
      have "unat valv div 128 < 2 ^ (7 * m) \<longleftrightarrow> unat valv < 2 ^ (7 * Suc m)"
        by (simp add: div_less_iff_less_mult power_add mult.commute)
      moreover have "\<not> unat valv < 2 ^ (7 * Suc m)" if "m = 0" using that big by simp
      ultimately show ?thesis unfolding w Suc using ih[of m] by (cases "m = 0") auto
    qed
  qed
qed

lemma bits_below_unat:
  fixes w :: uint32
  assumes "\<forall>k. bit w k \<longrightarrow> k < m"
  shows "unat w < 2 ^ m"
proof -
  have "take_bit m w = w" using assms by (intro bit_eqI) (auto simp: bit_simps)
  then have "unat w = take_bit m (unat w)" by (metis unsigned_take_bit_eq)
  then show ?thesis by (metis take_bit_nat_less_exp)
qed

lemma read_uleb128_loop_shape:
  "read_uleb128_loop bs ret shift = Some (ret', shift', r) \<Longrightarrow>
   \<exists>n\<ge>1. length bs = n + length r \<and> shift' = shift + 7 * n \<and>
     ((\<forall>k. bit ret k \<longrightarrow> k < shift) \<longrightarrow> (\<forall>k. bit ret' k \<longrightarrow> k < shift'))"
proof (induction bs arbitrary: ret shift)
  case Nil
  then show ?case by simp
next
  case (Cons b bs)
  let ?c = "ucast b :: uint32"
  let ?r = "ret OR push_bit shift (?c AND 0x7f)"
  have bnd: "(\<forall>k. bit ret k \<longrightarrow> k < shift) \<longrightarrow> (\<forall>k. bit ?r k \<longrightarrow> k < shift + 7)"
    by (auto simp: ubits)
  show ?case
  proof (cases "?c AND 0x80 \<noteq> 0")
    case True
    then have "read_uleb128_loop bs ?r (shift + 7) = Some (ret', shift', r)"
      using Cons.prems by (simp add: Let_def)
    from Cons.IH[OF this] obtain n where n: "n \<ge> 1" "length bs = n + length r"
      "shift' = shift + 7 + 7 * n"
      "(\<forall>k. bit ?r k \<longrightarrow> k < shift + 7) \<longrightarrow> (\<forall>k. bit ret' k \<longrightarrow> k < shift')"
      by blast
    show ?thesis
      by (rule exI[of _ "Suc n"]) (use n bnd in auto)
  next
    case False
    then have "ret' = ?r" "shift' = shift + 7" "r = bs"
      using Cons.prems by (simp_all add: Let_def)
    then show ?thesis using bnd by (intro exI[of _ 1]) simp
  qed
qed

lemma read_uleb128_shape:
  assumes "read_uleb128 bs = Some (v, r)"
  shows "\<exists>n\<ge>1. length bs = n + length r \<and> (if 5 \<le> n then v = UINT_MAX else unat v < 2 ^ (7 * n))"
proof -
  from assms obtain ret shift where l: "read_uleb128_loop bs 0 0 = Some (ret, shift, r)"
    and v: "v = (if 35 \<le> shift then UINT_MAX else ret)"
    by (auto simp: read_uleb128_def split: option.splits)
  from read_uleb128_loop_shape[OF l] obtain n where n: "n \<ge> 1" "length bs = n + length r"
    "shift = 7 * n" "\<forall>k. bit ret k \<longrightarrow> k < shift"
    by auto
  have "unat ret < 2 ^ (7 * n)" using bits_below_unat[OF n(4)] n(3) by simp
  then show ?thesis using n v by (intro exI[of _ n]) auto
qed

lemma read_write_uleb128:
  "read_uleb128 (write_uleb128 v @ rest) =
     Some (if 5 \<le> length (write_uleb128 v) then UINT_MAX else v, rest)"
  by (simp add: read_uleb128_def read_uleb128_loop_write)

text \<open>
  Claim C9. For every value below \<open>2 ^ 28\<close>, decoding what \<^verbatim>\<open>write_uleb128\<close> emitted
  (whatever bytes follow) gives the value back and leaves the pointer behind the emitted
  bytes. The emitted sequence has at most four bytes and is minimal: no byte sequence
  that \<^verbatim>\<open>read_uleb128\<close> decodes to the same value is shorter. Zero is the single byte 0.
\<close>

theorem write_read_uleb128_roundtrip:
  "unat v < 2 ^ 28 \<Longrightarrow>
     read_uleb128 (write_uleb128 v @ rest) = Some (v, rest) \<and>
     length (write_uleb128 v) \<le> 4 \<and>
     (\<forall>bs r. read_uleb128 bs = Some (v, r) \<longrightarrow> length (write_uleb128 v) \<le> length bs - length r) \<and>
     (v = 0 \<longrightarrow> write_uleb128 v = [0])"
proof -
  assume v: "unat v < 2 ^ 28"
  have l4: "length (write_uleb128 v) \<le> 4"
    using v by (simp add: length_write_uleb128_le)
  then have rt: "read_uleb128 (write_uleb128 v @ rest) = Some (v, rest)"
    by (simp add: read_write_uleb128)
  have mn: "length (write_uleb128 v) \<le> length bs - length r"
    if "read_uleb128 bs = Some (v, r)" for bs r
  proof -
    from read_uleb128_shape[OF that] obtain n where n: "n \<ge> 1" "length bs = n + length r"
      "if 5 \<le> n then v = UINT_MAX else unat v < 2 ^ (7 * n)" by blast
    show ?thesis
    proof (cases "5 \<le> n")
      case True
      then show ?thesis using l4 n(2) by simp
    next
      case False
      then have "length (write_uleb128 v) \<le> n" using n by (simp add: length_write_uleb128_le)
      then show ?thesis using n(2) by simp
    qed
  qed
  have z: "write_uleb128 0 = [0]" by (simp add: write_uleb128.simps)
  show ?thesis using rt l4 mn z by blast
qed

theorem write_read_uleb128_roundtrip_witness:
  "unat (300 :: uint32) < 2 ^ 28 \<and>
   write_uleb128 300 = [0xac, 0x02] \<and>
   read_uleb128 (write_uleb128 300 @ [7]) = Some (300, [7]) \<and>
   read_uleb128 [0xac, 0x82, 0x80, 0x00, 7] = Some (300, [7]) \<and>
   length (write_uleb128 300) \<le> length [0xac, 0x82, 0x80, 0x00, 7 :: byte] - length [7 :: byte]"
proof -
  have h: "unat (300 :: uint32) < 2 ^ 28" by simp
  have w: "write_uleb128 300 = [0xac, 0x02]" by code_simp
  have r: "read_uleb128 [0xac, 0x82, 0x80, 0x00, 7] = Some (300, [7])" by code_simp
  note t = write_read_uleb128_roundtrip[OF h, of "[7]"]
  have c3: "read_uleb128 (write_uleb128 300 @ [7]) = Some (300, [7])" using t by blast
  have c5: "length (write_uleb128 300) \<le> length [0xac, 0x82, 0x80, 0x00, 7 :: byte] - length [7 :: byte]"
    using t r by blast
  show ?thesis using h w r c3 c5 by blast
qed




section \<open>Proofs: relocation index\<close>

lemma find_rel_loop_correct:
  assumes "sorted (map ptr rels)" "r \<le> length rels"
    and "\<forall>i<l. ptr (rels ! i) < x"
    and "\<forall>i. r \<le> i \<and> i < length rels \<longrightarrow> x < ptr (rels ! i)"
  shows "(let k = find_rel_loop rels x l r in
           (k < length rels \<and> ptr (rels ! k) = x) \<or>
           (k = length rels \<and> (\<forall>i<length rels. ptr (rels ! i) \<noteq> x)))"
  using assms
proof (induction rels x l r rule: find_rel_loop.induct)
  case (1 relptr xptr l r)
  show ?case
  proof (cases "l < r")
    case False
    then have k: "find_rel_loop relptr xptr l r = length relptr"
      by (simp add: find_rel_loop.simps)
    have "ptr (relptr ! i) \<noteq> xptr" if "i < length relptr" for i
    proof (cases "i < l")
      case True
      then show ?thesis using "1.prems"(3) by fastforce
    next
      case F: False
      then have "r \<le> i" using False by simp
      then show ?thesis using "1.prems"(4) that by fastforce
    qed
    then show ?thesis using k by simp
  next
    case True
    define m where "m = (l + r) div 2"
    have m: "l \<le> m" "m < r" using True by (auto simp: m_def)
    then have ml: "m < length relptr" using "1.prems"(2) by simp
    have mono: "ptr (relptr ! i) \<le> ptr (relptr ! j)" if "i \<le> j" "j < length relptr" for i j
      using "1.prems"(1) that by (simp add: sorted_iff_nth_mono)
    consider (lt) "ptr (relptr ! m) < xptr" | (gt) "ptr (relptr ! m) > xptr" | (eq) "ptr (relptr ! m) = xptr"
      by linarith
    then show ?thesis
    proof cases
      case lt
      then have k: "find_rel_loop relptr xptr l r = find_rel_loop relptr xptr (m + 1) r"
        using True by (subst find_rel_loop.simps) (simp add: m_def Let_def)
      have "\<forall>i<m + 1. ptr (relptr ! i) < xptr"
        using mono[OF _ ml] lt by (metis Suc_eq_plus1 less_Suc_eq_le le_less_trans)
      from "1.IH"(1)[OF True m_def lt "1.prems"(1,2) this "1.prems"(4)]
      show ?thesis unfolding k .
    next
      case gt
      then have k: "find_rel_loop relptr xptr l r = find_rel_loop relptr xptr l m"
        using True by (subst find_rel_loop.simps) (simp add: m_def Let_def)
      have a: "\<forall>i. m \<le> i \<and> i < length relptr \<longrightarrow> xptr < ptr (relptr ! i)"
        using mono gt by (meson less_le_trans)
      have nlt: "\<not> ptr (relptr ! m) < xptr" using gt by simp
      have "m \<le> length relptr" using ml by simp
      from "1.IH"(2)[OF True m_def nlt gt "1.prems"(1) this "1.prems"(3) a]
      show ?thesis unfolding k .
    next
      case eq
      then have k: "find_rel_loop relptr xptr l r = m"
        using True by (subst find_rel_loop.simps) (simp add: m_def Let_def)
      show ?thesis unfolding k using eq ml by simp
    qed
  qed
qed

lemma find_rel_for_ptr_correct:
  assumes "sorted (map ptr rels)"
  shows "(find_rel_for_ptr x rels < length rels \<and> ptr (rels ! find_rel_for_ptr x rels) = x) \<or>
         (find_rel_for_ptr x rels = length rels \<and> (\<forall>r\<in>set rels. ptr r \<noteq> x))"
proof -
  have "(let k = find_rel_loop rels x 0 (length rels) in
           (k < length rels \<and> ptr (rels ! k) = x) \<or>
           (k = length rels \<and> (\<forall>i<length rels. ptr (rels ! i) \<noteq> x)))"
    by (rule find_rel_loop_correct[OF assms]) auto
  then show ?thesis
    unfolding find_rel_for_ptr_def Let_def by (metis in_set_conv_nth)
qed

text \<open>
  Claim C4. For a section with a built relocation buffer sorted by \<open>ptr\<close> and a pointer
  \<open>p\<close> with four readable bytes in the section, \<^verbatim>\<open>read_32_relocated\<close> returns, when some
  record sits at \<open>p\<close>, the addend of a record at \<open>p\<close> for \<^verbatim>\<open>RELA\<close> and the in-place value
  plus that addend for \<^verbatim>\<open>REL\<close>; when no record sits at \<open>p\<close> it returns the in-place value.
  The pointer is advanced by four.
\<close>

theorem read_32_relocated_value:
  assumes "relbuf (sections st sec) = Some rels"
    and "sorted (map ptr rels)"
    and "do_read_32 (ei_data st) (data (sections st sec)) p = Some inplace"
  shows "\<exists>dret st'. read_32_relocated st p sec = Some (dret, p + 4, st') \<and>
           (if \<exists>r\<in>set rels. ptr r = p
            then \<exists>r\<in>set rels. ptr r = p \<and>
                   dret = (if reltype (sections st sec) = SHT_REL then inplace + addend r
                           else addend r)
            else dret = inplace)"
proof -
  let ?i = "find_rel_for_ptr p rels"
  from find_rel_for_ptr_correct[OF assms(2), of p]
  consider (hit) "?i < length rels" "ptr (rels ! ?i) = p"
    | (miss) "?i = length rels" "\<forall>r\<in>set rels. ptr r \<noteq> p"
    by blast
  then show ?thesis
  proof cases
    case hit
    then have "rels ! ?i \<in> set rels" by simp
    then show ?thesis using hit assms(1,3)
      by (auto simp: read_32_relocated_def do_read_32_relocated_def Let_def)
  next
    case miss
    then show ?thesis using assms(1,3)
      by (auto simp: read_32_relocated_def do_read_32_relocated_def Let_def)
  qed
qed

theorem read_32_relocated_value_witness:
  "relbuf (sections
     \<lparr>sections = (\<lambda>_. \<lparr>data = [1, 0, 0, 0, 2, 0, 0, 0], relsec = 3, reltype = SHT_REL,
         relbuf = Some [\<lparr>ptr = 0, addend = 16, ndx = 1\<rparr>, \<lparr>ptr = 4, addend = 32, ndx = 0\<rparr>],
         rel_updated = False\<rparr>),
      ei_data = ELFDATA2LSB, last_relptr = None, last_relend = None, last_reltype = 0,
      last_sec = None\<rparr> 0)
     = Some [\<lparr>ptr = 0, addend = 16, ndx = 1\<rparr>, \<lparr>ptr = 4, addend = 32, ndx = 0\<rparr>] \<and>
   sorted (map ptr [\<lparr>ptr = 0, addend = 16, ndx = 1\<rparr>, \<lparr>ptr = 4, addend = 32, ndx = 0\<rparr>]) \<and>
   do_read_32 ELFDATA2LSB [1, 0, 0, 0, 2, 0, 0, 0] 4 = Some 2 \<and>
   (\<exists>st'. read_32_relocated
     \<lparr>sections = (\<lambda>_. \<lparr>data = [1, 0, 0, 0, 2, 0, 0, 0], relsec = 3, reltype = SHT_REL,
         relbuf = Some [\<lparr>ptr = 0, addend = 16, ndx = 1\<rparr>, \<lparr>ptr = 4, addend = 32, ndx = 0\<rparr>],
         rel_updated = False\<rparr>),
      ei_data = ELFDATA2LSB, last_relptr = None, last_relend = None, last_reltype = 0,
      last_sec = None\<rparr> 4 0 = Some (34, 8, st'))"
proof -
  let ?rels = "[\<lparr>ptr = 0, addend = 16, ndx = 1\<rparr>, \<lparr>ptr = 4, addend = (32::uint32), ndx = (0::nat)\<rparr>]"
  let ?st = "\<lparr>sections = (\<lambda>_::nat. \<lparr>data = [1, 0, 0, 0, 2, 0, 0, 0], relsec = 3, reltype = SHT_REL,
         relbuf = Some ?rels, rel_updated = False\<rparr>),
      ei_data = ELFDATA2LSB, last_relptr = None, last_relend = None, last_reltype = 0,
      last_sec = None\<rparr>"
  have h1: "relbuf (sections ?st 0) = Some ?rels" by simp
  have h2: "sorted (map ptr ?rels)" by simp
  have rd: "do_read_32 ELFDATA2LSB [1, 0, 0, 0, 2, 0, 0, 0] 4 = Some 2"
    by (simp add: do_read_32_def buf_read_ule32_def)
  then have h3: "do_read_32 (ei_data ?st) (data (sections ?st 0)) 4 = Some 2" by simp
  from read_32_relocated_value[OF h1 h2 h3]
  have "\<exists>st'. read_32_relocated ?st 4 0 = Some (34, 8, st')" by auto
  then show ?thesis using rd by simp
qed

section \<open>Proofs: flushing relocation addends\<close>

lemma update_rela_loop_result:
  "update_rela_loop d symdata rels = Inr d' \<Longrightarrow>
   length d' = length d \<and>
   (\<forall>j<length d. j \<notin> ndx ` set rels \<longrightarrow> d' ! j = d ! j) \<and>
   (\<forall>j<length d. r_offset (d' ! j) = r_offset (d ! j) \<and> r_info (d' ! j) = r_info (d ! j)) \<and>
   (distinct (map ndx rels) \<longrightarrow>
      (\<forall>r\<in>set rels. ndx r < length d \<and> GELF_R_SYM (r_info (d ! ndx r)) < length symdata \<and>
         d' ! ndx r = (d ! ndx r)\<lparr>r_addend :=
           ucast (addend r) - st_value (symdata ! GELF_R_SYM (r_info (d ! ndx r)))\<rparr>))"
proof (induction rels arbitrary: d)
  case Nil
  then show ?case by simp
next
  case (Cons a rels)
  let ?n = "ndx a"
  from Cons.prems have n: "?n < length d"
    by (auto simp: gelf_getrela_def split: if_splits)
  let ?s = "GELF_R_SYM (r_info (d ! ?n))"
  from Cons.prems n have s: "?s < length symdata"
    by (auto simp: gelf_getrela_def gelf_getsym_def split: if_splits)
  let ?e = "(d ! ?n)\<lparr>r_addend := ucast (addend a) - st_value (symdata ! ?s)\<rparr>"
  let ?d1 = "d[?n := ?e]"
  from Cons.prems n s have rec: "update_rela_loop ?d1 symdata rels = Inr d'"
    by (simp add: gelf_getrela_def gelf_getsym_def gelf_update_rela_def)
  note ih = Cons.IH[OF rec]
  have len: "length d' = length d" using ih by simp
  have other: "d' ! j = d ! j" if "j < length d" "j \<notin> ndx ` set (a # rels)" for j
  proof -
    have "d' ! j = ?d1 ! j" using ih that by simp
    then show ?thesis using that by simp
  qed
  have keep: "r_offset (d' ! j) = r_offset (d ! j) \<and> r_info (d' ! j) = r_info (d ! j)"
    if "j < length d" for j
  proof -
    have "r_offset (d' ! j) = r_offset (?d1 ! j) \<and> r_info (d' ! j) = r_info (?d1 ! j)"
      using ih that by simp
    then show ?thesis using that by (cases "j = ?n") simp_all
  qed
  have enc: "ndx r < length d \<and> GELF_R_SYM (r_info (d ! ndx r)) < length symdata \<and>
         d' ! ndx r = (d ! ndx r)\<lparr>r_addend :=
           ucast (addend r) - st_value (symdata ! GELF_R_SYM (r_info (d ! ndx r)))\<rparr>"
    if dist: "distinct (map ndx (a # rels))" and r: "r \<in> set (a # rels)" for r
  proof (cases "r = a")
    case True
    have "?n \<notin> ndx ` set rels" using dist by auto
    then have "d' ! ?n = ?d1 ! ?n" using ih n by simp
    then show ?thesis using True n s by simp
  next
    case False
    then have rin: "r \<in> set rels" using r by simp
    then have "ndx r \<in> ndx ` set rels" by simp
    moreover have "?n \<notin> ndx ` set rels" using dist by auto
    ultimately have ne: "ndx r \<noteq> ?n" by metis
    have "distinct (map ndx rels)" using dist by simp
    then have "ndx r < length ?d1 \<and> GELF_R_SYM (r_info (?d1 ! ndx r)) < length symdata \<and>
         d' ! ndx r = (?d1 ! ndx r)\<lparr>r_addend :=
           ucast (addend r) - st_value (symdata ! GELF_R_SYM (r_info (?d1 ! ndx r)))\<rparr>"
      using ih rin by blast
    then show ?thesis using ne by simp
  qed
  show ?case using len other keep enc by blast
qed

lemma do_read_32_relocated_sections:
  "do_read_32_relocated st p s = Some (v, st1) \<Longrightarrow> sections st1 = sections st"
  by (auto simp: do_read_32_relocated_def Let_def split: option.splits prod.splits)

lemma write_raw_32_rel:
  "write_raw_32 st psec p v = Some st2 \<Longrightarrow>
     rel_updated (sections st2 s) = rel_updated (sections st s) \<and>
     relbuf (sections st2 s) = relbuf (sections st s)"
  by (cases "s = psec") (auto simp: write_raw_32_def split: option.splits)

lemma do_write_32_relocated_rel_updated:
  assumes "do_write_32_relocated st psec p val = Some st2"
    and "rel_updated (sections st2 s)" "\<not> rel_updated (sections st s)"
  shows "last_sec st = Some s \<and> psec = s \<and> last_reltype st \<noteq> SHT_REL \<and>
         (\<exists>i rels. last_relptr st = Some i \<and> relbuf (sections st s) = Some rels \<and> i < length rels \<and>
            ptr (rels ! i) = p \<and>
            relbuf (sections st2 s) = Some (rels[i := (rels ! i)\<lparr>addend := val\<rparr>]))"
proof (cases "last_rel_hit st psec p")
  case None
  then show ?thesis using assms write_raw_32_rel[of st psec p val st2 s]
    by (simp add: do_write_32_relocated_def)
next
  case (Some h)
  obtain ls i rels where h: "h = (ls, i, rels)" by (cases h)
  from Some h have hit: "last_relptr st = Some i" "last_sec st = Some ls"
    "relbuf (sections st ls) = Some rels" "i < length rels" "ls = psec" "ptr (rels ! i) = p"
    by (auto simp: last_rel_hit_def split: option.splits if_splits)
  show ?thesis
  proof (cases "last_reltype st = SHT_REL")
    case True
    then show ?thesis using assms Some h write_raw_32_rel[of st psec p _ st2 s]
      by (simp add: do_write_32_relocated_def)
  next
    case False
    then have st2: "st2 = st\<lparr>sections := (sections st)(ls := (sections st ls)
                 \<lparr>relbuf := Some (rels[i := (rels ! i)\<lparr>addend := val\<rparr>]), rel_updated := True\<rparr>)\<rparr>"
      using assms(1) Some h by (simp add: do_write_32_relocated_def)
    have "s = ls" using assms(2,3) st2 by (cases "s = ls") auto
    then show ?thesis using hit False st2 by auto
  qed
qed

text \<open>
  Claim C10. When the section's \<open>rel_updated\<close> flag is false, \<^verbatim>\<open>update_rela_data\<close> returns
  with the ELF image as it was and only drops the relocation buffer. It never changes the
  flag, and the only relocation section whose entries it can change is the one of a section
  whose flag is set; there the entry of each record (records with distinct entry indices)
  gets the addend \<open>addend - st_value\<close> and every other entry stays as it was. A relocated read
  leaves all section descriptors alone, and a relocated write sets the flag only of the
  section of the preceding read, only when the relocation kind is not \<^verbatim>\<open>REL\<close> and the
  remembered record sits at the written pointer, whose addend becomes the written value.
\<close>

theorem update_rela_data_only_when_rel_updated:
  "(\<not> rel_updated sec \<longrightarrow> update_rela_data dso sec = Inr (dso, sec\<lparr>relbuf := None\<rparr>)) \<and>
   (update_rela_data dso sec = Inr (dso', sec') \<longrightarrow>
      rel_updated sec' = rel_updated sec \<and>
      (\<forall>k. scn_rela dso' k \<noteq> scn_rela dso k \<longrightarrow> rel_updated sec \<and> k = relsec sec) \<and>
      (rel_updated sec \<and> relbuf sec = Some rels \<and> distinct (map ndx rels) \<longrightarrow>
         length (scn_rela dso' (relsec sec)) = length (scn_rela dso (relsec sec)) \<and>
         (\<forall>r\<in>set rels.
            scn_rela dso' (relsec sec) ! ndx r =
              (scn_rela dso (relsec sec) ! ndx r)\<lparr>r_addend := ucast (addend r) -
                 st_value (scn_sym dso (shdr_sh_link dso (relsec sec)) !
                             GELF_R_SYM (r_info (scn_rela dso (relsec sec) ! ndx r)))\<rparr>) \<and>
         (\<forall>j<length (scn_rela dso (relsec sec)). j \<notin> ndx ` set rels \<longrightarrow>
            scn_rela dso' (relsec sec) ! j = scn_rela dso (relsec sec) ! j))) \<and>
   (do_read_32_relocated st p s = Some (v, st1) \<longrightarrow> sections st1 = sections st) \<and>
   (do_write_32_relocated st psec p val = Some st2 \<longrightarrow>
      (\<forall>s. rel_updated (sections st2 s) \<and> \<not> rel_updated (sections st s) \<longrightarrow>
         last_sec st = Some s \<and> last_reltype st \<noteq> SHT_REL \<and>
         (\<exists>i rels. relbuf (sections st s) = Some rels \<and> i < length rels \<and> ptr (rels ! i) = p \<and>
            relbuf (sections st2 s) = Some (rels[i := (rels ! i)\<lparr>addend := val\<rparr>]))))"
proof -
  have c1: "update_rela_data dso sec = Inr (dso, sec\<lparr>relbuf := None\<rparr>)" if "\<not> rel_updated sec"
    using that by (simp add: update_rela_data_def)
  have c2: "rel_updated sec' = rel_updated sec"
    if "update_rela_data dso sec = Inr (dso', sec')"
    using that by (auto simp: update_rela_data_def Let_def split: if_splits sum.splits)
  have c3: "rel_updated sec \<and> k = relsec sec"
    if u: "update_rela_data dso sec = Inr (dso', sec')" and ne: "scn_rela dso' k \<noteq> scn_rela dso k"
    for k
    using u ne
    by (cases "k = relsec sec") (auto simp: update_rela_data_def Let_def split: if_splits sum.splits)
  have c4: "length (scn_rela dso' (relsec sec)) = length (scn_rela dso (relsec sec)) \<and>
         (\<forall>r\<in>set rels.
            scn_rela dso' (relsec sec) ! ndx r =
              (scn_rela dso (relsec sec) ! ndx r)\<lparr>r_addend := ucast (addend r) -
                 st_value (scn_sym dso (shdr_sh_link dso (relsec sec)) !
                             GELF_R_SYM (r_info (scn_rela dso (relsec sec) ! ndx r)))\<rparr>) \<and>
         (\<forall>j<length (scn_rela dso (relsec sec)). j \<notin> ndx ` set rels \<longrightarrow>
            scn_rela dso' (relsec sec) ! j = scn_rela dso (relsec sec) ! j)"
    if u: "update_rela_data dso sec = Inr (dso', sec')"
      and h: "rel_updated sec \<and> relbuf sec = Some rels \<and> distinct (map ndx rels)"
  proof -
    let ?d = "scn_rela dso (relsec sec)"
    let ?sy = "scn_sym dso (shdr_sh_link dso (relsec sec))"
    from u h obtain d' where d': "update_rela_loop ?d ?sy rels = Inr d'"
      and dso': "scn_rela dso' (relsec sec) = d'"
      by (auto simp: update_rela_data_def Let_def split: sum.splits)
    note res = update_rela_loop_result[OF d']
    show ?thesis unfolding dso' using res h by blast
  qed
  have c5: "sections st1 = sections st" if "do_read_32_relocated st p s = Some (v, st1)"
    using that by (rule do_read_32_relocated_sections)
  have c6: "last_sec st = Some s \<and> last_reltype st \<noteq> SHT_REL \<and>
         (\<exists>i rels. relbuf (sections st s) = Some rels \<and> i < length rels \<and> ptr (rels ! i) = p \<and>
            relbuf (sections st2 s) = Some (rels[i := (rels ! i)\<lparr>addend := val\<rparr>]))"
    if w: "do_write_32_relocated st psec p val = Some st2"
      and r: "rel_updated (sections st2 s) \<and> \<not> rel_updated (sections st s)" for s
    using do_write_32_relocated_rel_updated[OF w] r by blast
  show ?thesis
    apply (intro conjI)
    subgoal using c1 by blast
    subgoal using c2 c3 c4 by blast
    subgoal using c5 by blast
    subgoal using c6 by blast
    done
qed

theorem update_rela_data_only_when_rel_updated_witness:
  "\<not> rel_updated \<lparr>data = [1, 0, 0, 0], relsec = 2, reltype = SHT_RELA,
      relbuf = Some [\<lparr>ptr = 0, addend = 40, ndx = 0\<rparr>], rel_updated = False\<rparr> \<and>
   update_rela_data \<lparr>scn_rela = (\<lambda>_. [\<lparr>r_offset = 0, r_info = 0x100000001, r_addend = 6\<rparr>]),
      scn_sym = (\<lambda>_. [\<lparr>st_value = 0, st_shndx = 0\<rparr>, \<lparr>st_value = 10, st_shndx = 5\<rparr>]),
      shdr_sh_link = (\<lambda>_. 7), scn_dirty = (\<lambda>_. False)\<rparr> \<lparr>data = [1, 0, 0, 0], relsec = 2, reltype = SHT_RELA,
      relbuf = Some [\<lparr>ptr = 0, addend = 40, ndx = 0\<rparr>], rel_updated = False\<rparr> = Inr (\<lparr>scn_rela = (\<lambda>_. [\<lparr>r_offset = 0, r_info = 0x100000001, r_addend = 6\<rparr>]),
      scn_sym = (\<lambda>_. [\<lparr>st_value = 0, st_shndx = 0\<rparr>, \<lparr>st_value = 10, st_shndx = 5\<rparr>]),
      shdr_sh_link = (\<lambda>_. 7), scn_dirty = (\<lambda>_. False)\<rparr>, \<lparr>data = [1, 0, 0, 0], relsec = 2, reltype = SHT_RELA,
      relbuf = Some [\<lparr>ptr = 0, addend = 40, ndx = 0\<rparr>], rel_updated = False\<rparr>\<lparr>relbuf := None\<rparr>) \<and>
   (\<exists>dso' sec'. update_rela_data \<lparr>scn_rela = (\<lambda>_. [\<lparr>r_offset = 0, r_info = 0x100000001, r_addend = 6\<rparr>]),
      scn_sym = (\<lambda>_. [\<lparr>st_value = 0, st_shndx = 0\<rparr>, \<lparr>st_value = 10, st_shndx = 5\<rparr>]),
      shdr_sh_link = (\<lambda>_. 7), scn_dirty = (\<lambda>_. False)\<rparr> \<lparr>data = [1, 0, 0, 0], relsec = 2, reltype = SHT_RELA,
      relbuf = Some [\<lparr>ptr = 0, addend = 40, ndx = 0\<rparr>], rel_updated = True\<rparr> = Inr (dso', sec') \<and> rel_updated sec' \<and>
      scn_rela dso' 2 = [\<lparr>r_offset = 0, r_info = 0x100000001, r_addend = 30\<rparr>]) \<and>
   (\<exists>st2. do_write_32_relocated \<lparr>sections = (\<lambda>_. \<lparr>data = [1, 0, 0, 0], relsec = 2, reltype = SHT_RELA,
      relbuf = Some [\<lparr>ptr = 0, addend = 40, ndx = 0\<rparr>], rel_updated = False\<rparr>),
      ei_data = ELFDATA2LSB, last_relptr = Some 0, last_relend = Some 1, last_reltype = SHT_RELA,
      last_sec = Some 3\<rparr> 3 0 77 = Some st2 \<and>
      rel_updated (sections st2 3) \<and> \<not> rel_updated (sections \<lparr>sections = (\<lambda>_. \<lparr>data = [1, 0, 0, 0], relsec = 2, reltype = SHT_RELA,
      relbuf = Some [\<lparr>ptr = 0, addend = 40, ndx = 0\<rparr>], rel_updated = False\<rparr>),
      ei_data = ELFDATA2LSB, last_relptr = Some 0, last_relend = Some 1, last_reltype = SHT_RELA,
      last_sec = Some 3\<rparr> 3) \<and>
      last_sec \<lparr>sections = (\<lambda>_. \<lparr>data = [1, 0, 0, 0], relsec = 2, reltype = SHT_RELA,
      relbuf = Some [\<lparr>ptr = 0, addend = 40, ndx = 0\<rparr>], rel_updated = False\<rparr>),
      ei_data = ELFDATA2LSB, last_relptr = Some 0, last_relend = Some 1, last_reltype = SHT_RELA,
      last_sec = Some 3\<rparr> = Some 3 \<and> last_reltype \<lparr>sections = (\<lambda>_. \<lparr>data = [1, 0, 0, 0], relsec = 2, reltype = SHT_RELA,
      relbuf = Some [\<lparr>ptr = 0, addend = 40, ndx = 0\<rparr>], rel_updated = False\<rparr>),
      ei_data = ELFDATA2LSB, last_relptr = Some 0, last_relend = Some 1, last_reltype = SHT_RELA,
      last_sec = Some 3\<rparr> \<noteq> SHT_REL \<and>
      relbuf (sections st2 3) = Some [\<lparr>ptr = 0, addend = 77, ndx = 0\<rparr>])"
proof -
  let ?sec0 = "\<lparr>data = [1, 0, 0, 0], relsec = 2, reltype = SHT_RELA,
      relbuf = Some [\<lparr>ptr = 0, addend = 40, ndx = 0\<rparr>], rel_updated = False\<rparr>"
  let ?sec1 = "\<lparr>data = [1, 0, 0, 0], relsec = 2, reltype = SHT_RELA,
      relbuf = Some [\<lparr>ptr = 0, addend = 40, ndx = 0\<rparr>], rel_updated = True\<rparr>"
  let ?dso0 = "\<lparr>scn_rela = (\<lambda>_. [\<lparr>r_offset = 0, r_info = 0x100000001, r_addend = 6\<rparr>]),
      scn_sym = (\<lambda>_. [\<lparr>st_value = 0, st_shndx = 0\<rparr>, \<lparr>st_value = 10, st_shndx = 5\<rparr>]),
      shdr_sh_link = (\<lambda>_. 7), scn_dirty = (\<lambda>_. False)\<rparr>"
  let ?st0 = "\<lparr>sections = (\<lambda>_. \<lparr>data = [1, 0, 0, 0], relsec = 2, reltype = SHT_RELA,
      relbuf = Some [\<lparr>ptr = 0, addend = 40, ndx = 0\<rparr>], rel_updated = False\<rparr>),
      ei_data = ELFDATA2LSB, last_relptr = Some 0, last_relend = Some 1, last_reltype = SHT_RELA,
      last_sec = Some 3\<rparr>"
  let ?rels = "[\<lparr>ptr = 0, addend = (40::uint32), ndx = (0::nat)\<rparr>]"
  have h0: "\<not> rel_updated ?sec0" by simp
  have a: "update_rela_data ?dso0 ?sec0 = Inr (?dso0, ?sec0\<lparr>relbuf := None\<rparr>)"
    using update_rela_data_only_when_rel_updated[where sec="?sec0" and dso="?dso0"] h0 by blast
  obtain dso' sec' where u: "update_rela_data ?dso0 ?sec1 = Inr (dso', sec')"
    by (simp add: update_rela_data_def gelf_getrela_def gelf_getsym_def gelf_update_rela_def
        GELF_R_SYM_def drop_bit_eq_div)
  have h1: "rel_updated ?sec1 \<and> relbuf ?sec1 = Some ?rels \<and> distinct (map ndx ?rels)" by simp
  from update_rela_data_only_when_rel_updated[where sec="?sec1" and dso="?dso0" and dso'=dso' and sec'=sec' and rels="?rels"] u h1
  have r: "rel_updated sec' = rel_updated ?sec1"
    and l: "length (scn_rela dso' (relsec ?sec1)) = length (scn_rela ?dso0 (relsec ?sec1))"
    and e: "\<forall>r\<in>set ?rels. scn_rela dso' (relsec ?sec1) ! ndx r =
              (scn_rela ?dso0 (relsec ?sec1) ! ndx r)\<lparr>r_addend := ucast (addend r) -
                 st_value (scn_sym ?dso0 (shdr_sh_link ?dso0 (relsec ?sec1)) !
                             GELF_R_SYM (r_info (scn_rela ?dso0 (relsec ?sec1) ! ndx r)))\<rparr>"
    by blast+
  have "scn_rela dso' 2 ! 0 = \<lparr>r_offset = 0, r_info = 0x100000001, r_addend = 30\<rparr>"
    using e by (simp add: GELF_R_SYM_def drop_bit_eq_div)
  moreover have "length (scn_rela dso' 2) = 1" using l by simp
  ultimately have b: "scn_rela dso' 2 = [\<lparr>r_offset = 0, r_info = 0x100000001, r_addend = 30\<rparr>]"
    by (cases "scn_rela dso' 2") auto
  obtain st2 where w: "do_write_32_relocated ?st0 3 0 77 = Some st2"
    and w2: "rel_updated (sections st2 3)"
    by (simp add: do_write_32_relocated_def last_rel_hit_def SHT_REL_def SHT_RELA_def)
  have n: "\<not> rel_updated (sections ?st0 3)" by simp
  from update_rela_data_only_when_rel_updated[where st="?st0" and psec=3 and p=0 and val=77 and ?st2.0=st2] w w2 n
  have c: "last_sec ?st0 = Some 3 \<and> last_reltype ?st0 \<noteq> SHT_REL \<and>
         (\<exists>i rels. relbuf (sections ?st0 3) = Some rels \<and> i < length rels \<and> ptr (rels ! i) = 0 \<and>
            relbuf (sections st2 3) = Some (rels[i := (rels ! i)\<lparr>addend := 77\<rparr>]))"
    by blast
  then have d: "relbuf (sections st2 3) = Some [\<lparr>ptr = 0, addend = 77, ndx = 0\<rparr>]"
    by auto
  show ?thesis using h0 a u r b w w2 n c d by auto
qed

section \<open>Proofs: the .debug\_str\_offsets updater\<close>

text \<open>
  Claim C6, as stated, fails: on a section whose only index table has version 4,
  \<^verbatim>\<open>update_str_offsets\<close> returns normally, with no error, no warning and every byte as
  it was.
\<close>

theorem update_str_offsets_bad_header_counterexample:
  "update_str_offsets Map.empty None
     \<lparr>sections = (\<lambda>_. \<lparr>data = [8, 0, 0, 0, 4, 0, 0, 0, 1, 0, 0, 0], relsec = 0, reltype = 0,
         relbuf = None, rel_updated = False\<rparr>),
      ei_data = ELFDATA2LSB, last_relptr = None, last_relend = None, last_reltype = 0,
      last_sec = None\<rparr>
   = Inr (\<lparr>sections = (\<lambda>_. \<lparr>data = [8, 0, 0, 0, 4, 0, 0, 0, 1, 0, 0, 0], relsec = 0, reltype = 0,
         relbuf = None, rel_updated = False\<rparr>),
      ei_data = ELFDATA2LSB, last_relptr = None, last_relend = None, last_reltype = 0,
      last_sec = None\<rparr>, [])"
  by (simp add: update_str_offsets_def update_str_offsets_loop.simps do_read_32_def do_read_16_def
      buf_read_ule32_def buf_read_ule16_def)

text \<open>
  Claim C6, amended. When the walk meets an index-table header (twelve bytes are left
  before the end) whose \<open>unit_length\<close> is \<open>0xffffffff\<close>, whose version is not 5 or whose
  padding is not zero, it stops there and \<^verbatim>\<open>update_str_offsets\<close> returns normally: the
  result is the state and the warnings reached so far, so this table and all that follows
  stay unchanged and no error is raised.
\<close>

theorem update_str_offsets_bad_header_stops:
  assumes "p + 12 \<le> endp"
    and "do_read_32 (ei_data st) (data (sections st DEBUG_STR_OFFSETS)) p = Some ulen"
    and "do_read_16 (ei_data st) (data (sections st DEBUG_STR_OFFSETS)) (p + 4) = Some vers"
    and "do_read_16 (ei_data st) (data (sections st DEBUG_STR_OFFSETS)) (p + 6) = Some padding"
    and "ulen = 0xffffffff \<or> vers \<noteq> 5 \<or> padding \<noteq> 0"
  shows "update_str_offsets_loop strent_root dummy endp st ws p = Inr (st, ws)"
proof -
  have a: "p < endp" "\<not> endp - p < 3 * 4" using assms(1) by simp_all
  have c: "do_read_16 (ei_data st) (data (sections st DEBUG_STR_OFFSETS)) (6 + p) = Some padding"
    using assms(4) by (simp add: add.commute)
  show ?thesis
    using a c assms(2,3,5)
    by (subst update_str_offsets_loop.simps) (auto simp: Let_def)
qed

theorem update_str_offsets_bad_header_stops_witness:
  "(0::nat) + 12 \<le> 12 \<and>
   do_read_32 ELFDATA2LSB [8, 0, 0, 0, 5, 0, 1, 0, 1, 0, 0, 0] 0 = Some 8 \<and>
   do_read_16 ELFDATA2LSB [8, 0, 0, 0, 5, 0, 1, 0, 1, 0, 0, 0] 4 = Some 5 \<and>
   do_read_16 ELFDATA2LSB [8, 0, 0, 0, 5, 0, 1, 0, 1, 0, 0, 0] 6 = Some 1 \<and>
   (1 :: 16 word) \<noteq> 0 \<and>
   update_str_offsets_loop Map.empty None 12
     \<lparr>sections = (\<lambda>_. \<lparr>data = [8, 0, 0, 0, 5, 0, 1, 0, 1, 0, 0, 0], relsec = 0, reltype = 0,
         relbuf = None, rel_updated = False\<rparr>),
      ei_data = ELFDATA2LSB, last_relptr = None, last_relend = None, last_reltype = 0,
      last_sec = None\<rparr> [] 0
   = Inr (\<lparr>sections = (\<lambda>_. \<lparr>data = [8, 0, 0, 0, 5, 0, 1, 0, 1, 0, 0, 0], relsec = 0, reltype = 0,
         relbuf = None, rel_updated = False\<rparr>),
      ei_data = ELFDATA2LSB, last_relptr = None, last_relend = None, last_reltype = 0,
      last_sec = None\<rparr>, [])"
proof -
  let ?d = "[8, 0, 0, 0, 5, 0, 1, 0, 1, 0, 0, 0] :: byte list"
  let ?st = "\<lparr>sections = (\<lambda>_::nat. \<lparr>data = ?d, relsec = 0, reltype = 0,
         relbuf = None, rel_updated = False\<rparr>),
      ei_data = ELFDATA2LSB, last_relptr = None, last_relend = None, last_reltype = 0,
      last_sec = None\<rparr>"
  have h1: "(0::nat) + 12 \<le> 12" by simp
  have r1: "do_read_32 ELFDATA2LSB ?d 0 = Some 8"
    by (simp add: do_read_32_def buf_read_ule32_def)
  have r2: "do_read_16 ELFDATA2LSB ?d 4 = Some 5"
    by (simp add: do_read_16_def buf_read_ule16_def)
  have r3: "do_read_16 ELFDATA2LSB ?d 6 = Some 1"
    by (simp add: do_read_16_def buf_read_ule16_def)
  have h2: "do_read_32 (ei_data ?st) (data (sections ?st DEBUG_STR_OFFSETS)) 0 = Some 8"
    using r1 by simp
  have h3: "do_read_16 (ei_data ?st) (data (sections ?st DEBUG_STR_OFFSETS)) (0 + 4) = Some 5"
    using r2 by simp
  have h4: "do_read_16 (ei_data ?st) (data (sections ?st DEBUG_STR_OFFSETS)) (0 + 6) = Some 1"
    using r3 by simp
  have h5: "(8::uint32) = 0xffffffff \<or> (5 :: 16 word) \<noteq> 5 \<or> (1 :: 16 word) \<noteq> 0" by simp
  from update_str_offsets_bad_header_stops[OF h1 h2 h3 h4 h5, of Map.empty None "[]"]
  show ?thesis using r1 r2 r3 by simp
qed

section \<open>Proofs: inline comp\_dir strings\<close>

lemma skip_dir_prefix_shape:
  assumes "skip_dir_prefix path base = Some file"
  shows "\<exists>k. path = base @ replicate k CHR ''/'' @ file \<and>
             (file \<noteq> [] \<longrightarrow> hd file \<noteq> CHR ''/'' \<and> 0 < k)"
proof -
  let ?rest = "drop (length base) path"
  from assms have pre: "take (length base) path = base"
    and sep: "?rest = [] \<or> hd ?rest = CHR ''/''"
    and fl: "file = dropWhile IS_DIR_SEPARATOR ?rest"
    by (auto simp: skip_dir_prefix_def Let_def IS_DIR_SEPARATOR_def split: if_splits)
  let ?k = "length (takeWhile IS_DIR_SEPARATOR ?rest)"
  have tw: "takeWhile IS_DIR_SEPARATOR ?rest = replicate ?k CHR ''/''"
  proof -
    have "\<forall>x\<in>set (takeWhile IS_DIR_SEPARATOR ?rest). x = CHR ''/''"
      using set_takeWhileD[of _ IS_DIR_SEPARATOR ?rest] by (auto simp: IS_DIR_SEPARATOR_def)
    then show ?thesis by (simp add: replicate_length_same)
  qed
  have "path = take (length base) path @ ?rest" by simp
  also have "\<dots> = base @ takeWhile IS_DIR_SEPARATOR ?rest @ dropWhile IS_DIR_SEPARATOR ?rest"
    using pre by simp
  finally have eq: "path = base @ replicate ?k CHR ''/'' @ file" using tw fl by simp
  have "hd file \<noteq> CHR ''/'' \<and> 0 < ?k" if ne: "file \<noteq> []"
  proof -
    have "\<not> IS_DIR_SEPARATOR (hd file)" using ne fl hd_dropWhile by metis
    then have h: "hd file \<noteq> CHR ''/''" by (simp add: IS_DIR_SEPARATOR_def)
    have "?rest \<noteq> []" using ne fl by auto
    then have "hd ?rest = CHR ''/''" using sep by simp
    then have "takeWhile IS_DIR_SEPARATOR ?rest \<noteq> []"
      using \<open>?rest \<noteq> []\<close> by (cases ?rest) (auto simp: IS_DIR_SEPARATOR_def)
    then show ?thesis using h by simp
  qed
  then show ?thesis using eq by blast
qed

lemma c_str_split:
  assumes "c_str d p = Some s"
  shows "\<exists>rest. d = take p d @ s @ CHR 0x00 # rest \<and> length (take p d) = p \<and> CHR 0x00 \<notin> set s"
proof -
  from assms have z: "CHR 0x00 \<in> set (drop p d)" and s: "s = takeWhile (\<lambda>c. c \<noteq> CHR 0x00) (drop p d)"
    by (auto simp: c_str_def split: if_splits)
  let ?r = "dropWhile (\<lambda>c. c \<noteq> CHR 0x00) (drop p d)"
  have "?r \<noteq> []" using z by (simp add: dropWhile_eq_Nil_conv)
  moreover have "hd ?r = CHR 0x00" using hd_dropWhile[OF \<open>?r \<noteq> []\<close>] by simp
  ultimately obtain rest where r: "?r = CHR 0x00 # rest" by (cases ?r) auto
  have "drop p d = s @ ?r" using s by simp
  then have "drop p d = s @ CHR 0x00 # rest" using r by simp
  then have "d = take p d @ s @ CHR 0x00 # rest" by (metis append_take_drop_id)
  moreover have "p \<le> length d" using z by (cases "p \<le> length d") auto
  moreover have "CHR 0x00 \<notin> set s" using s set_takeWhileD by fastforce
  ultimately show ?thesis by auto
qed

lemma comp_dir_overwrite:
  assumes d: "d = pre @ cd @ CHR 0x00 # rest" and p: "length pre = p"
    and cd: "cd = base @ replicate k CHR ''/'' @ file" and k: "file \<noteq> [] \<longrightarrow> 0 < k"
    and fit: "(if length file > 0 then length dest + (1 + length file) else length dest) \<le> length cd"
  shows "memset (memcpy d p dest (length dest)) (p + length dest) CHR ''/''
           (length cd - (if length file > 0 then length dest + (1 + length file) else length dest))
         = pre @ (dest @ replicate (length cd - length dest - length file) CHR ''/'' @ file)
             @ CHR 0x00 # rest"
proof -
  let ?dl = "length dest"
  let ?nl = "if length file > 0 then ?dl + (1 + length file) else ?dl"
  let ?pad = "length cd - ?nl"
  have le: "?dl + ?pad \<le> length cd" using fit by (auto split: if_splits)
  have m1: "memcpy d p dest ?dl = pre @ dest @ drop ?dl cd @ CHR 0x00 # rest"
    using le by (simp add: memcpy_def d p)
  have m2: "memset (pre @ dest @ drop ?dl cd @ CHR 0x00 # rest) (p + ?dl) CHR ''/'' ?pad
            = pre @ dest @ replicate ?pad CHR ''/'' @ drop (?dl + ?pad) cd @ CHR 0x00 # rest"
    using le p by (simp add: memset_def add.commute)
  have tail: "replicate ?pad CHR ''/'' @ drop (?dl + ?pad) cd
              = replicate (length cd - ?dl - length file) CHR ''/'' @ file"
  proof (cases "file = []")
    case True
    then show ?thesis using fit by simp
  next
    case False
    then have kp: "0 < k" using k by simp
    have len: "length cd = length base + k + length file" using cd by simp
    have dp: "?dl + ?pad = length base + (k - 1)" using False fit len kp by simp
    have "drop (length base + (k - 1)) cd = drop (k - 1) (replicate k CHR ''/'') @ file"
      using cd by simp
    also have "drop (k - 1) (replicate k CHR ''/'') = [CHR ''/'']" using kp by simp
    finally have dr: "drop (?dl + ?pad) cd = CHR ''/'' # file" using dp by simp
    have "length cd - ?dl - length file = Suc ?pad" using False fit by simp
    then show ?thesis using dr by (simp add: replicate_append_same)
  qed
  show ?thesis unfolding m1 m2 using tail by simp
qed

text \<open>
  Claim C2, amended. For an inline \<^verbatim>\<open>DW_AT_comp_dir\<close> string that begins with \<^verbatim>\<open>base_dir\<close>,
  phase one, when the replacement (\<^verbatim>\<open>dest_dir\<close>, plus \<open>/\<close> and the tail when there is a
  tail) is not longer than the original, overwrites the string in place: the section keeps
  its length, the bytes before and after the string stay, and the string becomes
  \<^verbatim>\<open>dest_dir\<close>, then the \<open>/\<close> characters that fill the shortfall (one more than the
  shortfall when there is a tail), then the tail: the padding sits between \<^verbatim>\<open>dest_dir\<close>
  and the tail, not at the end. When the replacement is longer, the warning is printed and
  the data is unchanged.
\<close>

theorem edit_comp_dir_string_phase1:
  assumes "c_str d p = Some comp_dir" and "skip_dir_prefix comp_dir base_dir = Some file"
  shows "(if length comp_dir < (if file \<noteq> [] then length dest + 1 + length file else length dest)
          then edit_comp_dir_string base_dir (Some dest) 1 d p fl
                 = Inr (d, comp_dir, fl, [Replacement_too_large comp_dir base_dir dest])
          else \<exists>d'. edit_comp_dir_string base_dir (Some dest) 1 d p fl = Inr (d', comp_dir, fl, []) \<and>
                 length d' = length d \<and> take p d' = take p d \<and>
                 drop (p + length comp_dir) d' = drop (p + length comp_dir) d \<and>
                 take (length comp_dir) (drop p d') =
                   dest @ replicate (length comp_dir - length dest - length file) CHR ''/'' @ file)"
proof -
  let ?nl = "if length file > 0 then length dest + (1 + length file) else length dest"
  have nl: "(if file \<noteq> [] then length dest + 1 + length file else length dest) = ?nl" by simp
  from c_str_split[OF assms(1)] obtain rest where
    d: "d = take p d @ comp_dir @ CHR 0x00 # rest" and p: "length (take p d) = p" by blast
  from skip_dir_prefix_shape[OF assms(2)] obtain k where
    cd: "comp_dir = base_dir @ replicate k CHR ''/'' @ file" and k: "file \<noteq> [] \<longrightarrow> 0 < k" by blast
  show ?thesis
  proof (cases "length comp_dir < ?nl")
    case True
    then show ?thesis unfolding nl using assms
      by (simp add: edit_comp_dir_string_def Let_def)
  next
    case False
    then have fit: "?nl \<le> length comp_dir" by simp
    let ?new = "dest @ replicate (length comp_dir - length dest - length file) CHR ''/'' @ file"
    let ?d' = "take p d @ ?new @ CHR 0x00 # rest"
    have ow: "memset (memcpy d p dest (length dest)) (p + length dest) CHR ''/''
           (length comp_dir - ?nl) = ?d'"
      by (rule comp_dir_overwrite[OF d p cd k fit])
    have run: "edit_comp_dir_string base_dir (Some dest) 1 d p fl = Inr (?d', comp_dir, fl, [])"
      using assms False ow by (simp add: edit_comp_dir_string_def Let_def)
    have ln: "length ?new = length comp_dir" using fit by (auto split: if_splits)
    have l: "length ?d' = length d" using ln by (subst (2) d) simp
    have t: "take p ?d' = take p d" using p by simp
    have dr: "drop (p + length comp_dir) ?d' = drop (p + length comp_dir) d"
    proof -
      have "drop (p + length comp_dir) ?d' = CHR 0x00 # rest" using p ln by simp
      moreover have "drop (p + length comp_dir) d = CHR 0x00 # rest"
        using p by (subst d) simp
      ultimately show ?thesis by simp
    qed
    have tk: "take (length comp_dir) (drop p ?d') = ?new" using p ln by simp
    show ?thesis unfolding nl using False run l t dr tk by (simp del: append_assoc)
  qed
qed

text \<open>
  Claim C2, as stated, fails on its own example: \<open>/build/src/pkg\<close> with
  \<^verbatim>\<open>base_dir = /build/src\<close> and \<^verbatim>\<open>dest_dir = /u\<close> becomes \<open>/u/////////pkg\<close>, not
  \<open>/u/pkg////////\<close>.
\<close>

theorem edit_comp_dir_string_padding_counterexample:
  "edit_comp_dir_string ''/build/src'' (Some ''/u'') 1 (''/build/src/pkg'' @ [CHR 0x00]) 0
      \<lparr>need_string_replacement = True, need_strp_update = False,
        need_line_strp_update = False, need_stmt_update = False\<rparr>
   = Inr (''/u/////////pkg'' @ [CHR 0x00], ''/build/src/pkg'',
      \<lparr>need_string_replacement = True, need_strp_update = False,
        need_line_strp_update = False, need_stmt_update = False\<rparr>, []) \<and>
   ''/u/////////pkg'' \<noteq> ''/u/pkg////////''"
  by (simp add: edit_comp_dir_string_def c_str_def skip_dir_prefix_def IS_DIR_SEPARATOR_def
      memcpy_def memset_def Let_def)

theorem edit_comp_dir_string_phase1_witness:
  "c_str (''X/build/src/pkg'' @ [CHR 0x00, CHR ''Y'']) 1 = Some ''/build/src/pkg'' \<and>
   skip_dir_prefix ''/build/src/pkg'' ''/build/src'' = Some ''pkg'' \<and>
   edit_comp_dir_string ''/build/src'' (Some ''/usr'') 1
       (''X/build/src/pkg'' @ [CHR 0x00, CHR ''Y'']) 1 \<lparr>need_string_replacement = True, need_strp_update = False,
        need_line_strp_update = False, need_stmt_update = False\<rparr>
     = Inr (''X/usr///////pkg'' @ [CHR 0x00, CHR ''Y''], ''/build/src/pkg'', \<lparr>need_string_replacement = True, need_strp_update = False,
        need_line_strp_update = False, need_stmt_update = False\<rparr>, []) \<and>
   edit_comp_dir_string ''/build/src'' (Some ''/usr/src/debug'') 1
       (''X/build/src/pkg'' @ [CHR 0x00, CHR ''Y'']) 1 \<lparr>need_string_replacement = True, need_strp_update = False,
        need_line_strp_update = False, need_stmt_update = False\<rparr>
     = Inr (''X/build/src/pkg'' @ [CHR 0x00, CHR ''Y''], ''/build/src/pkg'', \<lparr>need_string_replacement = True, need_strp_update = False,
        need_line_strp_update = False, need_stmt_update = False\<rparr>,
            [Replacement_too_large ''/build/src/pkg'' ''/build/src'' ''/usr/src/debug''])"
proof -
  let ?d = "''X/build/src/pkg'' @ [CHR 0x00, CHR ''Y'']"
  let ?fl = "\<lparr>need_string_replacement = True, need_strp_update = False,
        need_line_strp_update = False, need_stmt_update = False\<rparr>"
  have h1: "c_str ?d 1 = Some ''/build/src/pkg''" by (simp add: c_str_def)
  have h2: "skip_dir_prefix ''/build/src/pkg'' ''/build/src'' = Some ''pkg''"
    by (simp add: skip_dir_prefix_def IS_DIR_SEPARATOR_def)
  from edit_comp_dir_string_phase1[OF h1 h2, of "''/usr''" ?fl]
  obtain d' where r: "edit_comp_dir_string ''/build/src'' (Some ''/usr'') 1 ?d 1 ?fl
                      = Inr (d', ''/build/src/pkg'', ?fl, [])"
    and l: "length d' = length ?d" and t: "take 1 d' = take 1 ?d"
    and dr: "drop (1 + 14) d' = drop (1 + 14) ?d"
    and tk: "take 14 (drop 1 d') = ''/usr///////pkg''"
    by (auto simp: numeral_eq_Suc)
  have "d' = take 1 d' @ take 14 (drop 1 d') @ drop (1 + 14) d'"
    by (metis append_take_drop_id drop_drop add.commute)
  then have d': "d' = ''X/usr///////pkg'' @ [CHR 0x00, CHR ''Y'']"
    unfolding t dr tk by simp
  have c2: "edit_comp_dir_string ''/build/src'' (Some ''/usr/src/debug'') 1 ?d 1 ?fl
     = Inr (?d, ''/build/src/pkg'', ?fl,
            [Replacement_too_large ''/build/src/pkg'' ''/build/src'' ''/usr/src/debug''])"
    using edit_comp_dir_string_phase1[OF h1 h2, of "''/usr/src/debug''" ?fl] by simp
  show ?thesis using h1 h2 r d' c2 by simp
qed

section \<open>Proofs: running with dest\_dir equal to base\_dir\<close>

lemma edit_comp_dir_string_same_dir:
  assumes "edit_comp_dir_string base_dir (Some base_dir) 1 d p fl = Inr (d', s, fl', ws)"
  shows "d' = d \<and> fl' = fl \<and> ws = []"
proof -
  from assms obtain cd where c: "c_str d p = Some cd"
    by (auto simp: edit_comp_dir_string_def split: option.splits)
  show ?thesis
  proof (cases "skip_dir_prefix cd base_dir")
    case None
    then show ?thesis using assms c by (simp add: edit_comp_dir_string_def)
  next
    case (Some fname)
    from c_str_split[OF c] obtain rest where
      d: "d = take p d @ cd @ CHR 0x00 # rest" and p: "length (take p d) = p" by blast
    from skip_dir_prefix_shape[OF Some] obtain k where
      cd: "cd = base_dir @ replicate k CHR ''/'' @ fname" and k: "fname \<noteq> [] \<longrightarrow> 0 < k" by blast
    let ?nl = "if length fname > 0 then length base_dir + (1 + length fname) else length base_dir"
    have len: "length cd = length base_dir + k + length fname" using cd by simp
    have fit: "?nl \<le> length cd" using len k by auto
    have "memset (memcpy d p base_dir (length base_dir)) (p + length base_dir) CHR ''/''
           (length cd - ?nl)
          = take p d @ (base_dir @ replicate (length cd - length base_dir - length fname) CHR ''/'' @ fname)
             @ CHR 0x00 # rest"
      by (rule comp_dir_overwrite[OF d p cd k fit])
    also have "length cd - length base_dir - length fname = k" using len by simp
    finally have ow: "memset (memcpy d p base_dir (length base_dir)) (p + length base_dir) CHR ''/''
           (length cd - ?nl) = d"
      using cd d by simp
    have nlt: "\<not> length cd < ?nl" using fit by simp
    have "edit_comp_dir_string base_dir (Some base_dir) 1 d p fl = Inr (d, cd, fl, [])"
      unfolding edit_comp_dir_string_def Let_def using c Some nlt ow by simp
    then show ?thesis using assms by simp
  qed
qed

lemma record_file_string_entry_idx_ret:
  assumes "record_file_string_entry_idx base_dir dest_dir line_strp dso idx = Inr (ret, dso')"
    and "c_str (if line_strp then debug_line_str_data dso else debug_str_data dso) idx = Some dir"
  shows "ret \<longleftrightarrow> strings_of line_strp dso idx = None \<and> skip_dir_prefix dir base_dir \<noteq> None"
proof (cases "strings_of line_strp dso idx")
  case (Some a)
  then show ?thesis using assms(1) by (simp add: record_file_string_entry_idx_def)
next
  case None
  note n = None
  show ?thesis
  proof (cases "skip_dir_prefix dir base_dir")
    case None
    then show ?thesis using assms n
      by (simp add: record_file_string_entry_idx_def Let_def split: if_splits)
  next
    case (Some f)
    then show ?thesis using assms n
      by (simp add: record_file_string_entry_idx_def Let_def split: if_splits)
  qed
qed

lemma edit_attributes_str_comp_dir_phase0:
  assumes "edit_attributes_str_comp_dir base_dir (Some dest) line_strp idx 0 dso fl cd hs
      = Inr (dso', fl', cd', hs')"
  shows "\<exists>dir ret. c_str (if line_strp then debug_line_str_data dso else debug_str_data dso) idx = Some dir \<and>
           record_file_string_entry_idx base_dir dest line_strp dso idx = Inr (ret, dso') \<and>
           fl' = (if ret then (if line_strp then fl\<lparr>need_line_strp_update := True\<rparr>
                                  else fl\<lparr>need_strp_update := True\<rparr>) else fl)"
proof -
  let ?sec = "if line_strp then debug_line_str_data dso else debug_str_data dso"
  have inr: "\<not> length ?sec \<le> idx"
    using assms unfolding edit_attributes_str_comp_dir_def Let_def
    by (cases "length ?sec \<le> idx") simp_all
  then obtain dir where dir: "c_str ?sec idx = Some dir"
    using assms unfolding edit_attributes_str_comp_dir_def Let_def
    by (cases "c_str ?sec idx") simp_all
  have "\<exists>ret. record_file_string_entry_idx base_dir dest line_strp dso idx = Inr (ret, dso') \<and>
           fl' = (if ret then (if line_strp then fl\<lparr>need_line_strp_update := True\<rparr>
                                  else fl\<lparr>need_strp_update := True\<rparr>) else fl)"
  proof (cases "record_file_string_entry_idx base_dir dest line_strp dso idx")
    case (Inl e)
    then show ?thesis using assms inr dir unfolding edit_attributes_str_comp_dir_def Let_def by simp
  next
    case (Inr r)
    obtain ret d2 where r: "r = (ret, d2)" by (cases r)
    show ?thesis using assms inr dir Inr r unfolding edit_attributes_str_comp_dir_def Let_def
      by simp
  qed
  then show ?thesis using dir by blast
qed

lemma edit_comp_dir_string_phase0:
  assumes "edit_comp_dir_string base_dir (Some dest) 0 d p fl = Inr (d0, s0, fl0, ws0)"
  shows "d0 = d \<and> ws0 = [] \<and> c_str d p = Some s0 \<and>
         fl0 = (if skip_dir_prefix s0 base_dir = None then fl
                else fl\<lparr>need_string_replacement := True\<rparr>)"
proof -
  from assms obtain cd where c: "c_str d p = Some cd"
    unfolding edit_comp_dir_string_def by (cases "c_str d p") simp_all
  show ?thesis
  proof (cases "skip_dir_prefix cd base_dir")
    case None
    then show ?thesis using assms c unfolding edit_comp_dir_string_def by auto
  next
    case (Some f)
    then show ?thesis using assms c unfolding edit_comp_dir_string_def by auto
  qed
qed

text \<open>
  Claim C1, amended. With \<^verbatim>\<open>dest_dir\<close> equal to \<^verbatim>\<open>base_dir\<close>, the flags are not kept unset
  by that equality. \<^verbatim>\<open>record_file_string_entry_idx\<close> returns true exactly when the
  offset is not yet in the pool and the string at it begins with \<^verbatim>\<open>base_dir\<close> (in the
  sense of \<^verbatim>\<open>skip_dir_prefix\<close>). For a \<^verbatim>\<open>DW_AT_comp_dir\<close> in a
  string table, phase zero sets \<^verbatim>\<open>need_strp_update\<close> (\<^verbatim>\<open>need_line_strp_update\<close> for
  \<^verbatim>\<open>DW_FORM_line_strp\<close>) in exactly that case, so that phase one is not skipped, and
  otherwise leaves the four flags as they were. For an inline \<^verbatim>\<open>DW_AT_comp_dir\<close>, phase
  zero leaves the data as it was, prints no warning, and sets \<^verbatim>\<open>need_string_replacement\<close>
  exactly when the string begins with \<^verbatim>\<open>base_dir\<close>, so that phase one is not skipped, and
  otherwise leaves the four flags as they were; the phase-one rewrite of an inline
  \<^verbatim>\<open>DW_AT_comp_dir\<close> writes back the bytes that were there, changes no flag and prints no
  warning.
\<close>

theorem dest_dir_eq_base_dir_flags:
  "(record_file_string_entry_idx base_dir base_dir line_strp dso idx = Inr (ret, dsor) \<longrightarrow>
      ret = (strings_of line_strp dso idx = None \<and>
             (\<exists>s f. c_str (if line_strp then debug_line_str_data dso else debug_str_data dso) idx = Some s
                    \<and> skip_dir_prefix s base_dir = Some f))) \<and>
   (edit_attributes_str_comp_dir base_dir (Some base_dir) line_strp idx 0 dso fl cd hs
      = Inr (dso', fl', cd', hs') \<longrightarrow>
      (if strings_of line_strp dso idx = None \<and>
          (\<exists>s f. c_str (if line_strp then debug_line_str_data dso else debug_str_data dso) idx = Some s
                 \<and> skip_dir_prefix s base_dir = Some f)
       then fl' = (if line_strp then fl\<lparr>need_line_strp_update := True\<rparr>
                   else fl\<lparr>need_strp_update := True\<rparr>) \<and> \<not> skip_phase_one fl'
       else fl' = fl)) \<and>
   (edit_comp_dir_string base_dir (Some base_dir) 0 d p fl = Inr (d0, s0, fl0, ws0) \<longrightarrow>
      d0 = d \<and> ws0 = [] \<and> c_str d p = Some s0 \<and>
      (if skip_dir_prefix s0 base_dir = None then fl0 = fl
       else fl0 = fl\<lparr>need_string_replacement := True\<rparr> \<and> \<not> skip_phase_one fl0)) \<and>
   (edit_comp_dir_string base_dir (Some base_dir) 1 d p fl = Inr (d1, s1, fl1, ws1) \<longrightarrow>
      d1 = d \<and> fl1 = fl \<and> ws1 = [])"
proof -
  let ?sec = "if line_strp then debug_line_str_data dso else debug_str_data dso"
  let ?cond = "strings_of line_strp dso idx = None \<and>
          (\<exists>s f. c_str ?sec idx = Some s \<and> skip_dir_prefix s base_dir = Some f)"
  have c0: "ret = ?cond"
    if a: "record_file_string_entry_idx base_dir base_dir line_strp dso idx = Inr (ret, dsor)"
    for ret dsor
  proof (cases "strings_of line_strp dso idx")
    case (Some a')
    then show ?thesis using a by (simp add: record_file_string_entry_idx_def)
  next
    case None
    have inr: "\<not> length ?sec \<le> idx"
      using a None unfolding record_file_string_entry_idx_def Let_def
      by (cases "length ?sec \<le> idx") simp_all
    obtain dir where dir: "c_str ?sec idx = Some dir"
      using a None inr unfolding record_file_string_entry_idx_def Let_def
      by (cases "c_str ?sec idx") simp_all
    from record_file_string_entry_idx_ret[OF a dir] dir None show ?thesis by auto
  qed
  have c1: "if ?cond
       then fl' = (if line_strp then fl\<lparr>need_line_strp_update := True\<rparr>
                   else fl\<lparr>need_strp_update := True\<rparr>) \<and> \<not> skip_phase_one fl'
       else fl' = fl"
    if a: "edit_attributes_str_comp_dir base_dir (Some base_dir) line_strp idx 0 dso fl cd hs
      = Inr (dso', fl', cd', hs')"
  proof -
    from edit_attributes_str_comp_dir_phase0[OF a] obtain dir ret where
      dir: "c_str ?sec idx = Some dir"
      and r: "record_file_string_entry_idx base_dir base_dir line_strp dso idx = Inr (ret, dso')"
      and f: "fl' = (if ret then (if line_strp then fl\<lparr>need_line_strp_update := True\<rparr>
                                  else fl\<lparr>need_strp_update := True\<rparr>) else fl)"
      by blast
    note ret = c0[OF r]
    show ?thesis
    proof (cases ret)
      case True
      then have eq: "fl' = (if line_strp then fl\<lparr>need_line_strp_update := True\<rparr>
                   else fl\<lparr>need_strp_update := True\<rparr>)" using f by simp
      then have res: "\<not> skip_phase_one fl'" by (simp add: skip_phase_one_def)
      have cond: ?cond using True ret by simp
      show ?thesis unfolding if_P[OF cond] using eq res by (rule conjI)
    next
      case False
      then have res: "fl' = fl" using f by simp
      have cond: "\<not> ?cond" using False ret by simp
      show ?thesis unfolding if_not_P[OF cond] by (rule res)
    qed
  qed
  have c2: "d0 = d \<and> ws0 = [] \<and> c_str d p = Some s0 \<and>
      (if skip_dir_prefix s0 base_dir = None then fl0 = fl
       else fl0 = fl\<lparr>need_string_replacement := True\<rparr> \<and> \<not> skip_phase_one fl0)"
    if a: "edit_comp_dir_string base_dir (Some base_dir) 0 d p fl = Inr (d0, s0, fl0, ws0)"
    using edit_comp_dir_string_phase0[OF a] by (simp add: skip_phase_one_def)
  have c3: "d1 = d \<and> fl1 = fl \<and> ws1 = []"
    if "edit_comp_dir_string base_dir (Some base_dir) 1 d p fl = Inr (d1, s1, fl1, ws1)"
    using that by (rule edit_comp_dir_string_same_dir)
  show ?thesis
    apply (intro conjI)
    subgoal using c0 by blast
    subgoal using c1 by blast
    subgoal using c2 by blast
    subgoal using c3 by blast
    done
qed

text \<open>
  Claim C1, as stated, fails: with \<^verbatim>\<open>base_dir = dest_dir = /build/src\<close> and a \<^verbatim>\<open>comp_dir\<close>
  \<open>/build/src//pkg\<close> in \<^verbatim>\<open>.debug_str\<close>, phase zero sets \<^verbatim>\<open>need_strp_update\<close>, phase one is
  not skipped, and the string recorded for the new table, \<open>/build/src/pkg\<close>, is not the
  original one.
\<close>

theorem dest_dir_eq_base_dir_counterexample:
  "edit_attributes_str_comp_dir ''/build/src'' (Some ''/build/src'') False 0 0
      \<lparr>debug_str_entries = Map.empty, debug_line_str_entries = Map.empty,
        debug_str_data = ''/build/src//pkg'' @ [CHR 0x00], debug_line_str_data = []\<rparr>
      \<lparr>need_string_replacement = False, need_strp_update = False,
        need_line_strp_update = False, need_stmt_update = False\<rparr> None False
   = Inr (\<lparr>debug_str_entries = [0 \<mapsto> ''/build/src/pkg''], debug_line_str_entries = Map.empty,
        debug_str_data = ''/build/src//pkg'' @ [CHR 0x00], debug_line_str_data = []\<rparr>,
      \<lparr>need_string_replacement = False, need_strp_update = True,
        need_line_strp_update = False, need_stmt_update = False\<rparr>,
      Some ''/build/src//pkg'', True) \<and>
   skip_phase_one \<lparr>need_string_replacement = False, need_strp_update = True,
        need_line_strp_update = False, need_stmt_update = False\<rparr> = False \<and>
   ''/build/src/pkg'' \<noteq> ''/build/src//pkg''"
  by (simp add: edit_attributes_str_comp_dir_def record_file_string_entry_idx_def strings_of_def
      strtab_add_def c_str_def skip_dir_prefix_def IS_DIR_SEPARATOR_def skip_phase_one_def Let_def)

theorem dest_dir_eq_base_dir_flags_witness:
  "record_file_string_entry_idx ''/build/src'' ''/build/src'' False
      \<lparr>debug_str_entries = Map.empty, debug_line_str_entries = Map.empty,
        debug_str_data = ''/build/src//pkg'' @ [CHR 0x00], debug_line_str_data = []\<rparr> 0
   = Inr (True,
      \<lparr>debug_str_entries = [0 \<mapsto> ''/build/src/pkg''], debug_line_str_entries = Map.empty,
        debug_str_data = ''/build/src//pkg'' @ [CHR 0x00], debug_line_str_data = []\<rparr>) \<and>
   edit_attributes_str_comp_dir ''/build/src'' (Some ''/build/src'') False 0 0
      \<lparr>debug_str_entries = Map.empty, debug_line_str_entries = Map.empty,
        debug_str_data = ''/build/src//pkg'' @ [CHR 0x00], debug_line_str_data = []\<rparr>
      \<lparr>need_string_replacement = False, need_strp_update = False,
        need_line_strp_update = False, need_stmt_update = False\<rparr> None False
   = Inr (\<lparr>debug_str_entries = [0 \<mapsto> ''/build/src/pkg''], debug_line_str_entries = Map.empty,
        debug_str_data = ''/build/src//pkg'' @ [CHR 0x00], debug_line_str_data = []\<rparr>,
      \<lparr>need_string_replacement = False, need_strp_update = True,
        need_line_strp_update = False, need_stmt_update = False\<rparr>,
      Some ''/build/src//pkg'', True) \<and>
   strings_of False \<lparr>debug_str_entries = Map.empty, debug_line_str_entries = Map.empty,
        debug_str_data = ''/build/src//pkg'' @ [CHR 0x00], debug_line_str_data = []\<rparr> 0 = None \<and>
   c_str (''/build/src//pkg'' @ [CHR 0x00]) 0 = Some ''/build/src//pkg'' \<and>
   skip_dir_prefix ''/build/src//pkg'' ''/build/src'' = Some ''pkg'' \<and>
   \<lparr>need_string_replacement = False, need_strp_update = True,
        need_line_strp_update = False, need_stmt_update = False\<rparr>
   = \<lparr>need_string_replacement = False, need_strp_update = False,
        need_line_strp_update = False, need_stmt_update = False\<rparr>\<lparr>need_strp_update := True\<rparr> \<and>
   skip_phase_one \<lparr>need_string_replacement = False, need_strp_update = True,
        need_line_strp_update = False, need_stmt_update = False\<rparr> = False \<and>
   edit_comp_dir_string ''/build/src'' (Some ''/build/src'') 0 (''/build/src//pkg'' @ [CHR 0x00]) 0
      \<lparr>need_string_replacement = False, need_strp_update = False,
        need_line_strp_update = False, need_stmt_update = False\<rparr>
   = Inr (''/build/src//pkg'' @ [CHR 0x00], ''/build/src//pkg'',
      \<lparr>need_string_replacement = True, need_strp_update = False,
        need_line_strp_update = False, need_stmt_update = False\<rparr>, []) \<and>
   skip_phase_one \<lparr>need_string_replacement = True, need_strp_update = False,
        need_line_strp_update = False, need_stmt_update = False\<rparr> = False \<and>
   edit_comp_dir_string ''/build/src'' (Some ''/build/src'') 1 (''/build/src//pkg'' @ [CHR 0x00]) 0
      \<lparr>need_string_replacement = False, need_strp_update = False,
        need_line_strp_update = False, need_stmt_update = False\<rparr>
   = Inr (''/build/src//pkg'' @ [CHR 0x00], ''/build/src//pkg'',
      \<lparr>need_string_replacement = False, need_strp_update = False,
        need_line_strp_update = False, need_stmt_update = False\<rparr>, [])"
proof -
  let ?st = "\<lparr>debug_str_entries = Map.empty, debug_line_str_entries = Map.empty,
        debug_str_data = ''/build/src//pkg'' @ [CHR 0x00], debug_line_str_data = []\<rparr>"
  let ?st1 = "\<lparr>debug_str_entries = [0 \<mapsto> ''/build/src/pkg''], debug_line_str_entries = Map.empty,
        debug_str_data = ''/build/src//pkg'' @ [CHR 0x00], debug_line_str_data = []\<rparr>"
  let ?fl0 = "\<lparr>need_string_replacement = False, need_strp_update = False,
        need_line_strp_update = False, need_stmt_update = False\<rparr>"
  let ?fl1 = "\<lparr>need_string_replacement = False, need_strp_update = True,
        need_line_strp_update = False, need_stmt_update = False\<rparr>"
  let ?fl2 = "\<lparr>need_string_replacement = True, need_strp_update = False,
        need_line_strp_update = False, need_stmt_update = False\<rparr>"
  let ?d = "''/build/src//pkg'' @ [CHR 0x00]"
  have e0: "record_file_string_entry_idx ''/build/src'' ''/build/src'' False ?st 0 = Inr (True, ?st1)"
    by (simp add: record_file_string_entry_idx_def strings_of_def
      strtab_add_def c_str_def skip_dir_prefix_def IS_DIR_SEPARATOR_def Let_def)
  have e1: "edit_attributes_str_comp_dir ''/build/src'' (Some ''/build/src'') False 0 0 ?st ?fl0 None False
    = Inr (?st1, ?fl1, Some ''/build/src//pkg'', True)"
    by (simp add: edit_attributes_str_comp_dir_def record_file_string_entry_idx_def strings_of_def
      strtab_add_def c_str_def skip_dir_prefix_def IS_DIR_SEPARATOR_def Let_def)
  have h1: "strings_of False ?st 0 = None" by (simp add: strings_of_def)
  have h2: "c_str ?d 0 = Some ''/build/src//pkg''" by (simp add: c_str_def)
  have h3: "skip_dir_prefix ''/build/src//pkg'' ''/build/src'' = Some ''pkg''"
    by (simp add: skip_dir_prefix_def IS_DIR_SEPARATOR_def)
  have e2: "edit_comp_dir_string ''/build/src'' (Some ''/build/src'') 0 ?d 0 ?fl0
    = Inr (?d, ''/build/src//pkg'', ?fl2, [])"
    using h2 h3 by (simp add: edit_comp_dir_string_def)
  obtain d1 s1 fl1 ws1 where e3: "edit_comp_dir_string ''/build/src'' (Some ''/build/src'') 1 ?d 0 ?fl0
    = Inr (d1, s1, fl1, ws1)"
    using h2 h3 by (simp add: edit_comp_dir_string_def Let_def)
  note t = dest_dir_eq_base_dir_flags[where base_dir="''/build/src''" and line_strp=False
      and idx=0 and dso="?st" and ret=True and dsor="?st1" and fl="?fl0" and cd=None
      and hs=False and dso'="?st1"
      and fl'="?fl1" and cd'="Some ''/build/src//pkg''" and hs'=True and d="?d" and p=0
      and ?d0.0="?d" and ?s0.0="''/build/src//pkg''"
      and ?fl0.0="?fl2" and ?ws0.0="[]"
      and ?d1.0=d1 and ?s1.0=s1 and ?fl1.0=fl1 and ?ws1.0=ws1]
  have cond: "strings_of False ?st 0 = None \<and>
          (\<exists>s f. c_str (if False then debug_line_str_data ?st else debug_str_data ?st) 0 = Some s
                 \<and> skip_dir_prefix s ''/build/src'' = Some f)"
    using h1 h2 h3 by simp
  have c1: "?fl1 = (if False then ?fl0\<lparr>need_line_strp_update := True\<rparr>
                    else ?fl0\<lparr>need_strp_update := True\<rparr>) \<and> \<not> skip_phase_one ?fl1"
    using t[THEN conjunct2, THEN conjunct1, THEN mp, OF e1] unfolding if_P[OF cond] .
  have nn: "skip_dir_prefix ''/build/src//pkg'' ''/build/src'' \<noteq> None" using h3 by simp
  have c2: "?fl2 = ?fl0\<lparr>need_string_replacement := True\<rparr> \<and> \<not> skip_phase_one ?fl2"
    using t[THEN conjunct2, THEN conjunct2, THEN conjunct1, THEN mp, OF e2]
    unfolding if_not_P[OF nn] by (elim conjE, intro conjI)
  have c3: "d1 = ?d \<and> fl1 = ?fl0 \<and> ws1 = []"
    using t[THEN conjunct2, THEN conjunct2, THEN conjunct2, THEN mp, OF e3] .
  have s1: "s1 = ''/build/src//pkg''"
    using e3 h2 h3 by (simp add: edit_comp_dir_string_def Let_def split: if_splits)
  have g1: "?fl1 = ?fl0\<lparr>need_strp_update := True\<rparr>" using c1 by simp
  have g2: "skip_phase_one ?fl1 = False" using c1 by simp
  have g3: "skip_phase_one ?fl2 = False" using c2 by simp
  have e3': "edit_comp_dir_string ''/build/src'' (Some ''/build/src'') 1 ?d 0 ?fl0
    = Inr (?d, ''/build/src//pkg'', ?fl0, [])"
    using e3 c3 s1 by simp
  show ?thesis
    apply (intro conjI)
    subgoal by (rule e0)
    subgoal by (rule e1)
    subgoal by (rule h1)
    subgoal by (rule h2)
    subgoal by (rule h3)
    subgoal by (rule g1)
    subgoal by (rule g2)
    subgoal by (rule e2)
    subgoal by (rule g3)
    subgoal by (rule e3')
    done
qed

section \<open>Proofs: path canonicalization, length\<close>

lemma length_skip_separators: "length (skip_separators s) \<le> length s"
  unfolding skip_separators_def by (rule length_dropWhile_le)

lemma dot_dot_segment_length:
  assumes "dot_dot_segment s d droot = (s', d')"
  shows "length d' + length s' \<le> length d + length s + 2"
proof -
  have "length d' + length s' \<le> length d + length s + 2"
    if "(s', d') = (s, d @ ''..'')"
    using that by simp
  moreover have "length d' + length s' \<le> length d + length s + 2"
    if "(s', d') = (skip_separators s, take n d)" for n
    using that length_skip_separators[of s] by simp
  ultimately show ?thesis
    using assms unfolding dot_dot_segment_def Let_def by (metis (no_types, lifting))
qed

lemma path_segment_length:
  assumes "path_segment s d droot = (s', d')"
  shows "length d' + length s' \<le> length d + length s"
proof (cases s)
  case Nil
  then show ?thesis using assms by simp
next
  case (Cons c t)
  show ?thesis
  proof (cases "c = CHR ''.'' \<and> (t = [] \<or> IS_DIR_SEPARATOR (hd t))")
    case True
    have "path_segment (c # t) d droot = (skip_separators t, d)"
      unfolding path_segment.simps if_P[OF True] ..
    then show ?thesis using assms Cons length_skip_separators[of t] by simp
  next
    case F1: False
    show ?thesis
    proof (cases "c = CHR ''.'' \<and> t \<noteq> [] \<and> hd t = CHR ''.'' \<and> (tl t = [] \<or> IS_DIR_SEPARATOR (hd (tl t)))")
      case True
      have "path_segment (c # t) d droot = dot_dot_segment (tl t) d droot"
        unfolding path_segment.simps if_not_P[OF F1] if_P[OF True] ..
      then have "dot_dot_segment (tl t) d droot = (s', d')" using assms Cons by simp
      from dot_dot_segment_length[OF this]
      have "length d' + length s' \<le> length d + length (tl t) + 2" .
      moreover have "length (tl t) + 1 = length t" using True by (cases t) auto
      ultimately show ?thesis using Cons by simp
    next
      case False
      have "path_segment (c # t) d droot =
              (dropWhile (\<lambda>x. \<not> IS_DIR_SEPARATOR x) (c # t),
               d @ takeWhile (\<lambda>x. \<not> IS_DIR_SEPARATOR x) (c # t))"
        unfolding path_segment.simps if_not_P[OF F1] if_not_P[OF False] ..
      then have "s' = dropWhile (\<lambda>x. \<not> IS_DIR_SEPARATOR x) s"
        and "d' = d @ takeWhile (\<lambda>x. \<not> IS_DIR_SEPARATOR x) s"
        using assms Cons by simp_all
      moreover have "length (takeWhile (\<lambda>x. \<not> IS_DIR_SEPARATOR x) s)
                     + length (dropWhile (\<lambda>x. \<not> IS_DIR_SEPARATOR x) s) = length s"
        by (metis length_append takeWhile_dropWhile_id)
      ultimately show ?thesis by simp
    qed
  qed
qed

lemma canonicalize_step_length:
  assumes "canonicalize_step s d droot = (s', d')"
  shows "length d' + length s' \<le> length d + length s"
proof -
  obtain s1 d1 where ps: "path_segment s d droot = (s1, d1)" by (cases "path_segment s d droot")
  note l = path_segment_length[OF ps]
  show ?thesis
  proof (cases "s1 \<noteq> [] \<and> IS_DIR_SEPARATOR (hd s1)")
    case True
    have "canonicalize_step s d droot = (skip_separators (tl s1), d1 @ [hd s1])"
      unfolding canonicalize_step_def ps prod.case if_P[OF True] ..
    then have "s' = skip_separators (tl s1)" "d' = d1 @ [hd s1]" using assms by simp_all
    moreover have "length (tl s1) + 1 = length s1" using True by (cases s1) auto
    ultimately show ?thesis using l length_skip_separators[of "tl s1"] by simp
  next
    case False
    have "canonicalize_step s d droot = (s1, d1)"
      unfolding canonicalize_step_def ps prod.case if_not_P[OF False] ..
    then show ?thesis using assms l by simp
  qed
qed

lemma canonicalize_loop_length:
  "length (canonicalize_loop s d droot) \<le> length d + length s"
proof (induction s d droot rule: canonicalize_loop.induct)
  case (1 s d droot)
  show ?case
  proof (cases "s = []")
    case True
    then show ?thesis by (simp add: canonicalize_loop.simps)
  next
    case False
    obtain s' d' where st: "canonicalize_step s d droot = (s', d')"
      by (cases "canonicalize_step s d droot")
    have "canonicalize_loop s d droot = canonicalize_loop s' d' droot"
      using False st by (subst canonicalize_loop.simps) simp
    moreover have "length (canonicalize_loop s' d' droot) \<le> length d' + length s'"
      using "1.IH"[OF False st[symmetric]] .
    ultimately show ?thesis using canonicalize_step_length[OF st] by simp
  qed
qed

lemma strip_trailing_separators_length:
  "length (strip_trailing_separators d droot) \<le> length d"
proof (induction d droot rule: strip_trailing_separators.induct)
  case (1 d droot)
  show ?case
  proof (cases "droot < length d \<and> IS_DIR_SEPARATOR (last d)")
    case True
    then have "strip_trailing_separators d droot = strip_trailing_separators (butlast d) droot"
      by (subst strip_trailing_separators.simps) simp
    then show ?thesis using "1.IH"[OF True] by simp
  next
    case False
    then have "strip_trailing_separators d droot = d"
      by (subst strip_trailing_separators.simps) auto
    then show ?thesis by simp
  qed
qed

lemma canonicalize_root_length:
  assumes "canonicalize_root s = (s0, d0)"
  shows "length d0 + length s0 \<le> length s"
proof (cases s)
  case Nil
  then show ?thesis using assms by (simp add: canonicalize_root_def)
next
  case (Cons c s1)
  show ?thesis
  proof (cases "IS_DIR_SEPARATOR c")
    case False
    then show ?thesis using assms Cons by (simp add: canonicalize_root_def)
  next
    case True
    note sep = True
    show ?thesis
    proof (cases "s1 \<noteq> [] \<and> IS_DIR_SEPARATOR (hd s1) \<and> \<not> (tl s1 \<noteq> [] \<and> IS_DIR_SEPARATOR (hd (tl s1)))")
      case True
      have "canonicalize_root (c # s1) = (skip_separators (tl s1), [c, hd s1])"
        unfolding canonicalize_root_def list.case if_P[OF sep] if_P[OF True] ..
      then have "s0 = skip_separators (tl s1)" "d0 = [c, hd s1]" using assms Cons by simp_all
      moreover have "length (tl s1) + 1 = length s1" using True by (cases s1) auto
      ultimately show ?thesis using Cons length_skip_separators[of "tl s1"] by simp
    next
      case False
      have "canonicalize_root (c # s1) = (skip_separators s1, [c])"
        unfolding canonicalize_root_def list.case if_P[OF sep] if_not_P[OF False] ..
      then have "s0 = skip_separators s1" "d0 = [c]" using assms Cons by simp_all
      then show ?thesis using Cons length_skip_separators[of s1] by simp
    qed
  qed
qed

text \<open>
  Claim C8. For a non-empty input the string \<^verbatim>\<open>canonicalize_path\<close> produces is not longer
  than the input. The bound holds all along the run: after the leading separators and after
  each turn of the loop, the output written so far is not longer than the input consumed
  so far. Called in place, the write pointer therefore never passes the read pointer and
  the final NUL is stored at or before the input's own NUL.
\<close>

theorem canonicalize_path_not_longer:
  "(s \<noteq> [] \<longrightarrow> length (canonicalize_path s) \<le> length s) \<and>
   (canonicalize_root s = (s0, d0) \<longrightarrow> length d0 + length s0 \<le> length s) \<and>
   (canonicalize_step s1 d1 droot = (s2, d2) \<longrightarrow> length d2 + length s2 \<le> length d1 + length s1)"
proof -
  have "length (canonicalize_path s) \<le> length s" if ne: "s \<noteq> []"
  proof -
    obtain s0 d0 where r: "canonicalize_root s = (s0, d0)" by (cases "canonicalize_root s")
    let ?d1 = "canonicalize_loop s0 d0 (length d0)"
    let ?d2 = "strip_trailing_separators ?d1 (length d0)"
    have cp: "canonicalize_path s = (if ?d2 = [] then ''.'' else ?d2)"
      by (simp add: canonicalize_path_def r Let_def)
    have "length ?d2 \<le> length ?d1" by (rule strip_trailing_separators_length)
    also have "\<dots> \<le> length d0 + length s0" by (rule canonicalize_loop_length)
    also have "\<dots> \<le> length s" by (rule canonicalize_root_length[OF r])
    finally have l: "length ?d2 \<le> length s" .
    have "1 \<le> length s" using ne by (cases s) auto
    then show ?thesis unfolding cp using l by simp
  qed
  then show ?thesis
    using canonicalize_root_length[of s s0 d0] canonicalize_step_length[of s1 d1 droot s2 d2]
    by blast
qed

theorem canonicalize_path_not_longer_witness:
  "''/build//src/../pkg/'' \<noteq> [] \<and>
   canonicalize_path ''/build//src/../pkg/'' = ''/build/pkg'' \<and>
   length (canonicalize_path ''/build//src/../pkg/'') \<le> length ''/build//src/../pkg/'' \<and>
   canonicalize_root ''//build//src'' = (''build//src'', ''//'') \<and>
   length ''//'' + length ''build//src'' \<le> length ''//build//src'' \<and>
   canonicalize_step ''../pkg/'' ''/build/src/'' 1 = (''pkg/'', ''/build/'') \<and>
   length ''/build/'' + length ''pkg/'' \<le> length ''/build/src/'' + length ''../pkg/''"
proof -
  have h: "''/build//src/../pkg/'' \<noteq> []" by simp
  have e: "canonicalize_path ''/build//src/../pkg/'' = ''/build/pkg''" by code_simp
  have r: "canonicalize_root ''//build//src'' = (''build//src'', ''//'')" by code_simp
  have st: "canonicalize_step ''../pkg/'' ''/build/src/'' 1 = (''pkg/'', ''/build/'')" by code_simp
  note t = canonicalize_path_not_longer[of "''/build//src/../pkg/''" "''build//src''" "''//''"
      "''../pkg/''" "''/build/src/''" 1 "''pkg/''" "''/build/''"]
  have c1: "length (canonicalize_path ''/build//src/../pkg/'') \<le> length ''/build//src/../pkg/''"
    using t h by blast
  note u = canonicalize_path_not_longer[of "''//build//src''" "''build//src''" "''//''"
      "''../pkg/''" "''/build/src/''" 1 "''pkg/''" "''/build/''"]
  have c2: "length ''//'' + length ''build//src'' \<le> length ''//build//src''"
    using u r by blast
  have c3: "length ''/build/'' + length ''pkg/'' \<le> length ''/build/src/'' + length ''../pkg/''"
    using u st by blast
  show ?thesis using h e c1 r c2 st c3 by blast
qed

section \<open>Proofs: path canonicalization, idempotence\<close>

lemma back_over_separators_slash:
  assumes g: "wf_segment g" and dr: "droot \<le> length a"
  shows "back_over_separators (a @ g @ ''/'') (int droot) (int (length (a @ g @ ''/'')) - 1)
         = int (length a + length g) - 1"
proof -
  let ?d = "a @ g @ ''/''"
  let ?P = "int (length ?d) - 1"
  have gl: "0 < length g" using g by (simp add: wf_segment_def)
  have p0: "nat ?P = length a + length g" by simp
  have "?d ! (length a + length g) = CHR ''/''"
    by (metis append.assoc length_append nth_append_length)
  then have sp: "IS_DIR_SEPARATOR (?d ! nat ?P)"
    unfolding p0 by (simp add: IS_DIR_SEPARATOR_def)
  have "droot < length a + length g" using gl dr by linarith
  then have "int droot < ?P" by simp
  then have c0: "int droot < ?P \<and> IS_DIR_SEPARATOR (?d ! nat ?P)" using sp by (rule conjI)
  have s1: "back_over_separators ?d (int droot) ?P = back_over_separators ?d (int droot) (?P - 1)"
    by (subst back_over_separators.simps, subst if_P[OF c0], rule refl)
  have "?P - 1 = int (length a + (length g - 1))" using gl by (cases g) simp_all
  then have p1: "nat (?P - 1) = length a + (length g - 1)" by (simp only: nat_int)
  have "?d ! (length a + (length g - 1)) = g ! (length g - 1)"
    using gl by (simp add: nth_append)
  moreover have "g ! (length g - 1) \<in> set g" using gl by simp
  ultimately have "?d ! (length a + (length g - 1)) \<noteq> CHR ''/''"
    using g by (metis wf_segment_def)
  then have c1: "\<not> (int droot < ?P - 1 \<and> IS_DIR_SEPARATOR (?d ! nat (?P - 1)))"
    unfolding p1 by (simp add: IS_DIR_SEPARATOR_def)
  have s2: "back_over_separators ?d (int droot) (?P - 1) = ?P - 1"
    by (subst back_over_separators.simps, subst if_not_P[OF c1], rule refl)
  show ?thesis unfolding s1 s2 by simp
qed

lemma back_over_name_segment:
  assumes g: "CHR ''/'' \<notin> set g" and j: "j < length g" and dr: "droot \<le> length a"
    and la: "droot < length a \<Longrightarrow> last a = CHR ''/''"
  shows "back_over_name (a @ g @ b) (int droot) (int (length a + j))
         = (if length a = droot then int droot else int (length a) - 1)"
  using j
proof (induction j)
  case 0
  let ?d = "a @ g @ b"
  let ?P = "int (length a + 0)"
  show ?case
  proof (cases "length a = droot")
    case True
    then have c: "\<not> (int droot < ?P \<and> \<not> IS_DIR_SEPARATOR (?d ! nat ?P))" by simp
    have "back_over_name ?d (int droot) ?P = ?P"
      by (subst back_over_name.simps, subst if_not_P[OF c], rule refl)
    then show ?thesis using True by simp
  next
    case False
    then have lt: "droot < length a" using dr by simp
    have "?d ! length a = g ! 0" using 0 by (simp add: nth_append)
    moreover have "g ! 0 \<in> set g" using 0 by simp
    ultimately have "?d ! length a \<noteq> CHR ''/''" using g by metis
    then have c: "int droot < ?P \<and> \<not> IS_DIR_SEPARATOR (?d ! nat ?P)"
      using lt by (simp add: IS_DIR_SEPARATOR_def)
    have s1: "back_over_name ?d (int droot) ?P = back_over_name ?d (int droot) (?P - 1)"
      by (subst back_over_name.simps, subst if_P[OF c], rule refl)
    have ane: "a \<noteq> []" using lt by auto
    have n: "nat (?P - 1) = length a - 1" by simp
    have "?d ! (length a - 1) = last a" using ane by (simp add: nth_append last_conv_nth)
    then have "?d ! (length a - 1) = CHR ''/''" using la[OF lt] by simp
    then have c2: "\<not> (int droot < ?P - 1 \<and> \<not> IS_DIR_SEPARATOR (?d ! nat (?P - 1)))"
      unfolding n by (simp add: IS_DIR_SEPARATOR_def)
    have s2: "back_over_name ?d (int droot) (?P - 1) = ?P - 1"
      by (subst back_over_name.simps, subst if_not_P[OF c2], rule refl)
    show ?thesis unfolding s1 s2 using False by simp
  qed
next
  case (Suc j)
  let ?d = "a @ g @ b"
  let ?P = "int (length a + Suc j)"
  have "?d ! (length a + Suc j) = g ! Suc j" using Suc.prems by (simp add: nth_append)
  moreover have "g ! Suc j \<in> set g" using Suc.prems by simp
  ultimately have ns: "?d ! (length a + Suc j) \<noteq> CHR ''/''" using g by metis
  have n: "nat ?P = length a + Suc j" by (rule nat_int)
  have sp: "\<not> IS_DIR_SEPARATOR (?d ! nat ?P)"
    unfolding n using ns by (simp add: IS_DIR_SEPARATOR_def)
  have "int droot < ?P" using dr by simp
  then have c: "int droot < ?P \<and> \<not> IS_DIR_SEPARATOR (?d ! nat ?P)" using sp by (rule conjI)
  have "back_over_name ?d (int droot) ?P = back_over_name ?d (int droot) (?P - 1)"
    by (subst back_over_name.simps, subst if_P[OF c], rule refl)
  also have "?P - 1 = int (length a + j)" by simp
  finally show ?case using Suc.IH Suc.prems by simp
qed

lemma flat_snoc: "flat (st @ [g]) = flat st @ g @ ''/''"
  by (simp add: flat_def)

lemma flat_Nil: "flat [] = []"
  by (simp add: flat_def)

lemma flat_last:
  assumes "st \<noteq> []" "list_all wf_segment st"
  shows "last (flat st) = CHR ''/'' \<and> 2 \<le> length (flat st)"
proof -
  obtain st' h where st: "st = st' @ [h]" using assms(1) by (metis rev_exhaust)
  have "wf_segment h" using assms(2) st by simp
  then have "1 \<le> length h" by (cases h) (simp_all add: wf_segment_def)
  then show ?thesis unfolding st flat_snoc by simp
qed

lemma two_chars: "length g = 2 \<Longrightarrow> g = [g ! 0, g ! 1]"
  by (cases g; cases "tl g") auto

lemma dot_dot_segment_stack:
  assumes wf: "list_all wf_segment stack"
  shows "dot_dot_segment s (root @ flat stack) (length root) =
          (if stack \<noteq> [] \<and> last stack \<noteq> ''..'' then (skip_separators s, root @ flat (butlast stack))
           else (s, root @ flat stack @ ''..''))"
proof (cases stack rule: rev_cases)
  case Nil
  let ?P = "int (length root) - 1"
  have c: "\<not> (int (length root) < ?P \<and> IS_DIR_SEPARATOR (root ! nat ?P))" by simp
  have b: "back_over_separators root (int (length root)) ?P = ?P"
    by (subst back_over_separators.simps, subst if_not_P[OF c], rule refl)
  have n: "\<not> (int (length root) \<le> ?P \<and> \<not> IS_DIR_SEPARATOR (root ! nat ?P))" by simp
  have "dot_dot_segment s root (length root) = (s, root @ ''..'')"
    unfolding dot_dot_segment_def b Let_def if_not_P[OF n] ..
  then show ?thesis using Nil by (simp add: flat_Nil)
next
  case (snoc st' g)
  let ?a = "root @ flat st'"
  let ?d = "?a @ g @ ''/''"
  have d: "root @ flat stack = ?d" using snoc by (simp add: flat_snoc)
  have wg: "wf_segment g" and wst: "list_all wf_segment st'" using wf snoc by simp_all
  have gl: "0 < length g" and gns: "CHR ''/'' \<notin> set g" using wg by (simp_all add: wf_segment_def)
  have dr: "length root \<le> length ?a" by simp
  have pre: "back_over_separators ?d (int (length root)) (int (length ?d) - 1)
             = int (length ?a + length g) - 1"
    by (rule back_over_separators_slash[OF wg dr])
  have pe: "int (length ?a + length g) - 1 = int (length ?a + (length g - 1))"
    using gl by (cases g) simp_all
  have np: "nat (int (length ?a + (length g - 1))) = length ?a + (length g - 1)" by (rule nat_int)
  have "?d ! (length ?a + (length g - 1)) = g ! (length g - 1)"
    using gl by (simp add: nth_append)
  moreover have "g ! (length g - 1) \<in> set g" using gl by simp
  ultimately have ns: "?d ! (length ?a + (length g - 1)) \<noteq> CHR ''/''" using gns by metis
  have c1: "int (length root) \<le> int (length ?a + (length g - 1))
            \<and> \<not> IS_DIR_SEPARATOR (?d ! nat (int (length ?a + (length g - 1))))"
    unfolding np using ns by (simp add: IS_DIR_SEPARATOR_def)
  have la: "length root < length ?a \<Longrightarrow> last ?a = CHR ''/''"
  proof -
    assume "length root < length ?a"
    then have ne: "st' \<noteq> []" by (auto simp: flat_Nil)
    then have "flat st' \<noteq> []" using flat_last[OF ne wst] by auto
    then show ?thesis using flat_last[OF ne wst] by simp
  qed
  have jl: "length g - 1 < length g" using gl by simp
  have pre1: "back_over_name ?d (int (length root)) (int (length ?a + (length g - 1)))
             = (if length ?a = length root then int (length root) else int (length ?a) - 1)"
    by (rule back_over_name_segment[OF gns jl dr la])
  define pre2 where "pre2 =
     (if int (length root) < (if length ?a = length root then int (length root) else int (length ?a) - 1)
      then (if length ?a = length root then int (length root) else int (length ?a) - 1) + 1
      else (if length ?a = length root then int (length root) else int (length ?a) - 1))"
  have p2: "pre2 = int (length ?a)"
  proof (cases "length ?a = length root")
    case True
    then show ?thesis by (simp add: pre2_def)
  next
    case False
    then have ne: "st' \<noteq> []" by (auto simp: flat_Nil)
    have "2 \<le> length (flat st')" using flat_last[OF ne wst] by simp
    then show ?thesis using False by (simp add: pre2_def)
  qed
  have run: "dot_dot_segment s ?d (length root) =
     (if pre2 + 3 = int (length ?d) \<and> ?d ! nat pre2 = CHR ''.'' \<and> ?d ! nat (pre2 + 1) = CHR ''.''
      then (s, ?d @ ''..'') else (skip_separators s, take (nat pre2) ?d))"
    unfolding dot_dot_segment_def pre pe Let_def if_P[OF c1] pre1 pre2_def ..
  have n0: "nat (int (length ?a)) = length ?a" by (rule nat_int)
  have n1: "nat (int (length ?a) + 1) = length ?a + 1" by simp
  have d0: "?d ! length ?a = g ! 0" using gl by (simp add: nth_append)
  have tst: "(pre2 + 3 = int (length ?d) \<and> ?d ! nat pre2 = CHR ''.'' \<and> ?d ! nat (pre2 + 1) = CHR ''.'')
             \<longleftrightarrow> g = ''..''"
  proof
    assume t: "pre2 + 3 = int (length ?d) \<and> ?d ! nat pre2 = CHR ''.'' \<and> ?d ! nat (pre2 + 1) = CHR ''.''"
    then have l2: "length g = 2" unfolding p2 by simp
    then have d1: "?d ! (length ?a + 1) = g ! 1" by (simp add: nth_append)
    have "g ! 0 = CHR ''.''" "g ! 1 = CHR ''.''"
      using t d0 d1 unfolding p2 n0 n1 by simp_all
    then show "g = ''..''" using two_chars[OF l2] by simp
  next
    assume e: "g = ''..''"
    then have d1: "?d ! (length ?a + 1) = CHR ''.''" by (simp add: nth_append)
    have d0': "?d ! length ?a = CHR ''.''" using d0 e by simp
    show "pre2 + 3 = int (length ?d) \<and> ?d ! nat pre2 = CHR ''.'' \<and> ?d ! nat (pre2 + 1) = CHR ''.''"
      unfolding p2 n0 n1 using e d0' d1 by simp
  qed
  have tk: "take (nat pre2) ?d = ?a" unfolding p2 n0 by simp
  have "dot_dot_segment s ?d (length root) =
     (if g = ''..'' then (s, ?d @ ''..'') else (skip_separators s, ?a))"
    unfolding run tst tk ..
  then show ?thesis unfolding d[symmetric] using snoc by (simp add: flat_snoc)
qed

lemma skip_separators_hd:
  "skip_separators x = [] \<or> \<not> IS_DIR_SEPARATOR (hd (skip_separators x))"
  unfolding skip_separators_def by (metis hd_dropWhile)

lemma name_rest_hd:
  "dropWhile (\<lambda>x. \<not> IS_DIR_SEPARATOR x) s = []
   \<or> IS_DIR_SEPARATOR (hd (dropWhile (\<lambda>x. \<not> IS_DIR_SEPARATOR x) s))"
  using hd_dropWhile[of "\<lambda>x. \<not> IS_DIR_SEPARATOR x" s] by blast

lemma skip_separators_idem [simp]: "skip_separators (skip_separators x) = skip_separators x"
  unfolding skip_separators_def by simp

lemma skip_separators_tl:
  assumes "r \<noteq> []" "IS_DIR_SEPARATOR (hd r)"
  shows "skip_separators (tl r) = skip_separators r" and "[hd r] = ''/''"
  using assms by (cases r; simp add: skip_separators_def IS_DIR_SEPARATOR_def)+

lemma step_after_skip:
  assumes "path_segment s d droot = (skip_separators x, d1)"
  shows "canonicalize_step s d droot = (skip_separators x, d1)"
proof -
  have n: "\<not> (skip_separators x \<noteq> [] \<and> IS_DIR_SEPARATOR (hd (skip_separators x)))"
    using skip_separators_hd[of x] by blast
  show ?thesis unfolding canonicalize_step_def assms prod.case if_not_P[OF n] ..
qed

lemma step_after_name:
  assumes "path_segment s d droot = (r, d1)" and "r = [] \<or> IS_DIR_SEPARATOR (hd r)"
  shows "canonicalize_step s d droot = (skip_separators r, d1 @ (if r = [] then [] else ''/''))"
proof (cases "r = []")
  case True
  then have n: "\<not> (r \<noteq> [] \<and> IS_DIR_SEPARATOR (hd r))" by simp
  have "canonicalize_step s d droot = (r, d1)"
    unfolding canonicalize_step_def assms(1) prod.case if_not_P[OF n] ..
  then show ?thesis using True by (simp add: skip_separators_def)
next
  case False
  then have c: "r \<noteq> [] \<and> IS_DIR_SEPARATOR (hd r)" using assms(2) by simp
  have "canonicalize_step s d droot = (skip_separators (tl r), d1 @ [hd r])"
    unfolding canonicalize_step_def assms(1) prod.case if_P[OF c] ..
  then show ?thesis using False skip_separators_tl[of r] c by simp
qed

lemma name_eq_dot:
  assumes "\<not> IS_DIR_SEPARATOR c"
  shows "takeWhile (\<lambda>x. \<not> IS_DIR_SEPARATOR x) (c # t) = ''.''
         \<longleftrightarrow> c = CHR ''.'' \<and> (t = [] \<or> IS_DIR_SEPARATOR (hd t))"
  using assms by (cases t) (auto simp: takeWhile_eq_Nil_iff)

lemma name_eq_dot_dot:
  assumes "\<not> IS_DIR_SEPARATOR c"
  shows "takeWhile (\<lambda>x. \<not> IS_DIR_SEPARATOR x) (c # t) = ''..''
         \<longleftrightarrow> c = CHR ''.'' \<and> t \<noteq> [] \<and> hd t = CHR ''.'' \<and> (tl t = [] \<or> IS_DIR_SEPARATOR (hd (tl t)))"
proof (cases t)
  case Nil
  then show ?thesis using assms by simp
next
  case (Cons c2 t2)
  then show ?thesis using assms by (cases t2) (auto simp: IS_DIR_SEPARATOR_def)
qed

lemma canonicalize_step_stack:
  assumes ne: "s \<noteq> []" and hs: "\<not> IS_DIR_SEPARATOR (hd s)" and wf: "list_all wf_segment stack"
    and g: "g = takeWhile (\<lambda>x. \<not> IS_DIR_SEPARATOR x) s"
    and rest: "rest = dropWhile (\<lambda>x. \<not> IS_DIR_SEPARATOR x) s"
  shows "canonicalize_step s (root @ flat stack) (length root) =
     (if rest = [] \<and> g \<noteq> ''.'' \<and> \<not> (g = ''..'' \<and> stack \<noteq> [] \<and> last stack \<noteq> ''..'')
      then ([], root @ flat stack @ g)
      else (skip_separators rest, root @ flat (push_segment stack g)))"
proof -
  obtain c t where s: "s = c # t" using ne by (cases s) auto
  have cs: "\<not> IS_DIR_SEPARATOR c" using hs s by simp
  let ?d = "root @ flat stack"
  have rh: "rest = [] \<or> IS_DIR_SEPARATOR (hd rest)" unfolding rest by (rule name_rest_hd)
  have gt: "g = c # takeWhile (\<lambda>x. \<not> IS_DIR_SEPARATOR x) t"
    and rt: "rest = dropWhile (\<lambda>x. \<not> IS_DIR_SEPARATOR x) t"
    using g rest s cs by simp_all
  show ?thesis
  proof (cases "c = CHR ''.'' \<and> (t = [] \<or> IS_DIR_SEPARATOR (hd t))")
    case True
    then have gd: "g = ''.''" using name_eq_dot[OF cs, of t] g s by simp
    have rt': "rest = t" using True rt by (cases t) auto
    have "path_segment (c # t) ?d (length root) = (skip_separators t, ?d)"
      unfolding path_segment.simps if_P[OF True] ..
    then have "canonicalize_step s ?d (length root) = (skip_separators t, ?d)"
      unfolding s by (rule step_after_skip)
    then show ?thesis using gd rt' by (simp add: push_segment_def)
  next
    case F1: False
    then have gnd: "g \<noteq> ''.''" using name_eq_dot[OF cs, of t] g s by simp
    show ?thesis
    proof (cases "c = CHR ''.'' \<and> t \<noteq> [] \<and> hd t = CHR ''.'' \<and> (tl t = [] \<or> IS_DIR_SEPARATOR (hd (tl t)))")
      case True
      then have gdd: "g = ''..''" using name_eq_dot_dot[OF cs, of t] g s by simp
      have rt': "rest = tl t"
      proof -
        obtain c2 t2 where t: "t = c2 # t2" using True by (cases t) auto
        have "c2 = CHR ''.''" using True t by simp
        then have "\<not> IS_DIR_SEPARATOR c2" by (simp add: IS_DIR_SEPARATOR_def)
        moreover have "t2 = [] \<or> IS_DIR_SEPARATOR (hd t2)" using True t by simp
        ultimately show ?thesis using rt t by (cases t2) auto
      qed
      have ps: "path_segment (c # t) ?d (length root) = dot_dot_segment (tl t) ?d (length root)"
        unfolding path_segment.simps if_not_P[OF F1] if_P[OF True] ..
      show ?thesis
      proof (cases "stack \<noteq> [] \<and> last stack \<noteq> ''..''")
        case True
        have "dot_dot_segment (tl t) ?d (length root)
              = (skip_separators (tl t), root @ flat (butlast stack))"
          unfolding dot_dot_segment_stack[OF wf] if_P[OF True] ..
        then have "path_segment s ?d (length root)
              = (skip_separators (tl t), root @ flat (butlast stack))"
          using ps s by simp
        then have "canonicalize_step s ?d (length root)
              = (skip_separators (tl t), root @ flat (butlast stack))"
          by (rule step_after_skip)
        then show ?thesis using True gdd rt' by (simp add: push_segment_def)
      next
        case False
        have "dot_dot_segment (tl t) ?d (length root) = (tl t, root @ flat stack @ ''..'')"
          unfolding dot_dot_segment_stack[OF wf] if_not_P[OF False] ..
        then have "path_segment s ?d (length root) = (rest, (root @ flat stack @ g))"
          using ps s gdd rt' by simp
        from step_after_name[OF this rh]
        have st: "canonicalize_step s ?d (length root)
              = (skip_separators rest, (root @ flat stack @ g) @ (if rest = [] then [] else ''/''))" .
        have pg: "push_segment stack g = stack @ [g]"
          using False gdd by (auto simp: push_segment_def)
        show ?thesis
        proof (cases "rest = []")
          case True
          then show ?thesis using st gnd False by (simp add: skip_separators_def)
        next
          case R: False
          then show ?thesis using st pg by (simp add: flat_snoc)
        qed
      qed
    next
      case False
      then have gndd: "g \<noteq> ''..''" using name_eq_dot_dot[OF cs, of t] g s by simp
      have "path_segment (c # t) ?d (length root) =
              (dropWhile (\<lambda>x. \<not> IS_DIR_SEPARATOR x) (c # t),
               ?d @ takeWhile (\<lambda>x. \<not> IS_DIR_SEPARATOR x) (c # t))"
        unfolding path_segment.simps if_not_P[OF F1] if_not_P[OF False] ..
      then have "path_segment s ?d (length root) = (rest, (root @ flat stack @ g))"
        using s g rest by simp
      from step_after_name[OF this rh]
      have st: "canonicalize_step s ?d (length root)
              = (skip_separators rest, (root @ flat stack @ g) @ (if rest = [] then [] else ''/''))" .
      have pg: "push_segment stack g = stack @ [g]"
        using gnd gndd by (simp add: push_segment_def)
      show ?thesis
      proof (cases "rest = []")
        case True
        then show ?thesis using st gnd gndd by (simp add: skip_separators_def)
      next
        case R: False
        then show ?thesis using st pg by (simp add: flat_snoc)
      qed
    qed
  qed
qed

lemma join_segments_snoc: "join_segments (st @ [g]) = flat st @ g"
proof (induction st)
  case Nil
  then show ?case by (simp add: flat_Nil)
next
  case (Cons h st)
  obtain x xs where e: "st @ [g] = x # xs" by (cases "st @ [g]") auto
  have "join_segments (h # st @ [g]) = h @ ''/'' @ join_segments (st @ [g])"
    unfolding e by simp
  then show ?case using Cons by (simp add: flat_def)
qed

lemma strip_no_separator:
  assumes "d = [] \<or> \<not> IS_DIR_SEPARATOR (last d) \<or> length d \<le> droot"
  shows "strip_trailing_separators d droot = d"
proof -
  have n: "\<not> (droot < length d \<and> IS_DIR_SEPARATOR (last d))" using assms by auto
  show ?thesis by (subst strip_trailing_separators.simps, subst if_not_P[OF n], rule refl)
qed

lemma strip_open:
  assumes "wf_segment g"
  shows "strip_trailing_separators (root @ flat st @ g) (length root) = root @ join_segments (st @ [g])"
proof -
  have gne: "g \<noteq> []" and "CHR ''/'' \<notin> set g" using assms by (auto simp: wf_segment_def)
  then have "last g \<noteq> CHR ''/''" using last_in_set[of g] by metis
  with gne have "\<not> IS_DIR_SEPARATOR (last (root @ flat st @ g))" by (simp add: IS_DIR_SEPARATOR_def)
  then show ?thesis using strip_no_separator[of "root @ flat st @ g" "length root"]
    by (simp add: join_segments_snoc)
qed

lemma strip_closed:
  assumes "list_all wf_segment st"
  shows "strip_trailing_separators (root @ flat st) (length root) = root @ join_segments st"
proof (cases st rule: rev_cases)
  case Nil
  then show ?thesis using strip_no_separator[of root "length root"] by (simp add: flat_Nil)
next
  case (snoc st' g)
  let ?d = "root @ flat st' @ g @ ''/''"
  have wg: "wf_segment g" using assms snoc by simp
  then have gl: "g \<noteq> []" by (simp add: wf_segment_def)
  have c: "length root < length ?d \<and> IS_DIR_SEPARATOR (last ?d)"
    by (simp add: IS_DIR_SEPARATOR_def)
  have "strip_trailing_separators ?d (length root)
        = strip_trailing_separators (butlast ?d) (length root)"
    by (subst strip_trailing_separators.simps, subst if_P[OF c], rule refl)
  also have "butlast ?d = root @ flat st' @ g" by (simp add: butlast_append)
  also have "strip_trailing_separators (root @ flat st' @ g) (length root)
             = root @ join_segments (st' @ [g])" by (rule strip_open[OF wg])
  finally show ?thesis using snoc by (simp add: flat_snoc)
qed

lemma wf_name:
  assumes "s \<noteq> []" "\<not> IS_DIR_SEPARATOR (hd s)"
  shows "wf_segment (takeWhile (\<lambda>x. \<not> IS_DIR_SEPARATOR x) s)"
proof -
  have "takeWhile (\<lambda>x. \<not> IS_DIR_SEPARATOR x) s \<noteq> []"
    using assms by (cases s) auto
  moreover have "CHR ''/'' \<notin> set (takeWhile (\<lambda>x. \<not> IS_DIR_SEPARATOR x) s)"
    using set_takeWhileD[of "CHR ''/''" "\<lambda>x. \<not> IS_DIR_SEPARATOR x" s]
    by (auto simp: IS_DIR_SEPARATOR_def)
  ultimately show ?thesis by (simp add: wf_segment_def)
qed

lemma wf_push_segment:
  assumes "list_all wf_segment st" "wf_segment g"
  shows "list_all wf_segment (push_segment st g)"
proof -
  have "list_all wf_segment (butlast st)"
    using assms(1) by (metis list_all_iff in_set_butlastD)
  then show ?thesis using assms by (simp add: push_segment_def)
qed

lemma segments_Cons:
  "s \<noteq> [] \<Longrightarrow> segments s = takeWhile (\<lambda>x. \<not> IS_DIR_SEPARATOR x) s
       # segments (skip_separators (dropWhile (\<lambda>x. \<not> IS_DIR_SEPARATOR x) s))"
  by (subst segments.simps) simp

lemma segments_Nil: "segments [] = []"
  by (subst segments.simps) simp

lemma canonicalize_loop_stack:
  assumes "s = [] \<or> \<not> IS_DIR_SEPARATOR (hd s)" and "list_all wf_segment stack"
  shows "strip_trailing_separators (canonicalize_loop s (root @ flat stack) (length root)) (length root)
         = root @ join_segments (foldl push_segment stack (segments s))"
  using assms
proof (induction "length s" arbitrary: s stack rule: less_induct)
  case less
  show ?case
  proof (cases "s = []")
    case True
    then have "canonicalize_loop s (root @ flat stack) (length root) = root @ flat stack"
      by (subst canonicalize_loop.simps) simp
    then show ?thesis using True strip_closed[OF less.prems(2)] by (simp add: segments_Nil)
  next
    case False
    then have hs: "\<not> IS_DIR_SEPARATOR (hd s)" using less.prems(1) by simp
    define g where "g = takeWhile (\<lambda>x. \<not> IS_DIR_SEPARATOR x) s"
    define rest where "rest = dropWhile (\<lambda>x. \<not> IS_DIR_SEPARATOR x) s"
    note st = canonicalize_step_stack[OF False hs less.prems(2) g_def rest_def, of root]
    have wg: "wf_segment g" unfolding g_def by (rule wf_name[OF False hs])
    have seg: "segments s = g # segments (skip_separators rest)"
      unfolding g_def rest_def by (rule segments_Cons[OF False])
    have unf: "canonicalize_loop s (root @ flat stack) (length root)
               = (case canonicalize_step s (root @ flat stack) (length root) of
                    (s', d') \<Rightarrow> canonicalize_loop s' d' (length root))"
      using False by (subst canonicalize_loop.simps) simp
    show ?thesis
    proof (cases "rest = [] \<and> g \<noteq> ''.'' \<and> \<not> (g = ''..'' \<and> stack \<noteq> [] \<and> last stack \<noteq> ''..'')")
      case True
      have "canonicalize_step s (root @ flat stack) (length root) = ([], root @ flat stack @ g)"
        unfolding st if_P[OF True] ..
      then have "canonicalize_loop s (root @ flat stack) (length root)
                 = canonicalize_loop [] (root @ flat stack @ g) (length root)"
        unfolding unf by simp
      also have "\<dots> = root @ flat stack @ g" by (subst canonicalize_loop.simps) simp
      finally have l: "canonicalize_loop s (root @ flat stack) (length root) = root @ flat stack @ g" .
      have pg: "push_segment stack g = stack @ [g]" using True by (auto simp: push_segment_def)
      have "segments s = [g]" using seg True by (simp add: skip_separators_def segments_Nil)
      then show ?thesis unfolding l strip_open[OF wg] using pg by simp
    next
      case F: False
      let ?s' = "skip_separators rest"
      let ?st' = "push_segment stack g"
      have "canonicalize_step s (root @ flat stack) (length root) = (?s', root @ flat ?st')"
        unfolding st if_not_P[OF F] ..
      then have l: "canonicalize_loop s (root @ flat stack) (length root)
                 = canonicalize_loop ?s' (root @ flat ?st') (length root)"
        unfolding unf by simp
      have "length rest < length s"
      proof -
        have "length g + length rest = length s"
          unfolding g_def rest_def by (metis length_append takeWhile_dropWhile_id)
        moreover have "g \<noteq> []" using wg by (simp add: wf_segment_def)
        ultimately show ?thesis by (cases g) auto
      qed
      then have sh: "length ?s' < length s" using length_skip_separators[of rest] by simp
      have h': "?s' = [] \<or> \<not> IS_DIR_SEPARATOR (hd ?s')" by (rule skip_separators_hd)
      have w': "list_all wf_segment ?st'" by (rule wf_push_segment[OF less.prems(2) wg])
      from less.hyps[OF sh h' w']
      show ?thesis unfolding l using seg by simp
    qed
  qed
qed

lemma canonicalize_root_cases:
  assumes "canonicalize_root p = (s0, root)"
  shows "(s0 = [] \<or> \<not> IS_DIR_SEPARATOR (hd s0)) \<and> (root = [] \<or> root = ''/'' \<or> root = ''//'')"
proof (cases p)
  case Nil
  then show ?thesis using assms by (simp add: canonicalize_root_def)
next
  case (Cons c s1)
  show ?thesis
  proof (cases "IS_DIR_SEPARATOR c")
    case False
    have "canonicalize_root (c # s1) = (c # s1, [])"
      unfolding canonicalize_root_def list.case if_not_P[OF False] ..
    then have "s0 = c # s1" "root = []" using assms Cons by simp_all
    then show ?thesis using False by simp
  next
    case True
    note sep = True
    then have c: "c = CHR ''/''" by (simp add: IS_DIR_SEPARATOR_def)
    show ?thesis
    proof (cases "s1 \<noteq> [] \<and> IS_DIR_SEPARATOR (hd s1) \<and> \<not> (tl s1 \<noteq> [] \<and> IS_DIR_SEPARATOR (hd (tl s1)))")
      case True
      have "canonicalize_root (c # s1) = (skip_separators (tl s1), [c, hd s1])"
        unfolding canonicalize_root_def list.case if_P[OF sep] if_P[OF True] ..
      then have "s0 = skip_separators (tl s1)" "root = [c, hd s1]" using assms Cons by simp_all
      moreover have "hd s1 = CHR ''/''" using True by (simp add: IS_DIR_SEPARATOR_def)
      ultimately show ?thesis using c skip_separators_hd[of "tl s1"] by simp
    next
      case False
      have "canonicalize_root (c # s1) = (skip_separators s1, [c])"
        unfolding canonicalize_root_def list.case if_P[OF sep] if_not_P[OF False] ..
      then have "s0 = skip_separators s1" "root = [c]" using assms Cons by simp_all
      then show ?thesis using c skip_separators_hd[of s1] by simp
    qed
  qed
qed

lemma canonicalize_path_segments:
  assumes "canonicalize_root p = (s0, root)"
  shows "canonicalize_path p =
           (if root @ join_segments (foldl push_segment [] (segments s0)) = [] then ''.''
            else root @ join_segments (foldl push_segment [] (segments s0)))"
proof -
  have h: "s0 = [] \<or> \<not> IS_DIR_SEPARATOR (hd s0)" using canonicalize_root_cases[OF assms] by simp
  have "strip_trailing_separators (canonicalize_loop s0 (root @ flat []) (length root)) (length root)
        = root @ join_segments (foldl push_segment [] (segments s0))"
    by (rule canonicalize_loop_stack[OF h]) simp
  then have "strip_trailing_separators (canonicalize_loop s0 root (length root)) (length root)
        = root @ join_segments (foldl push_segment [] (segments s0))"
    by (simp add: flat_Nil)
  then show ?thesis unfolding canonicalize_path_def assms prod.case Let_def by simp
qed

lemma skip_separators_id:
  "x = [] \<or> \<not> IS_DIR_SEPARATOR (hd x) \<Longrightarrow> skip_separators x = x"
  unfolding skip_separators_def by (cases x) auto

lemma join_segments_hd:
  assumes "list_all wf_segment st"
  shows "join_segments st = [] \<or> \<not> IS_DIR_SEPARATOR (hd (join_segments st))"
proof (cases st)
  case Nil
  then show ?thesis by simp
next
  case (Cons g gs)
  then have "wf_segment g" using assms by simp
  then have gne: "g \<noteq> []" and "CHR ''/'' \<notin> set g" by (auto simp: wf_segment_def)
  then have "hd g \<noteq> CHR ''/''" using hd_in_set[of g] by metis
  with gne have "g \<noteq> []" "hd g \<noteq> CHR ''/''" by simp_all
  then have "\<not> IS_DIR_SEPARATOR (hd (join_segments (g # gs)))"
    by (cases gs) (simp_all add: IS_DIR_SEPARATOR_def)
  then show ?thesis using Cons by simp
qed

lemma canonicalize_root_join:
  assumes "list_all wf_segment st" and "root = [] \<or> root = ''/'' \<or> root = ''//''"
  shows "canonicalize_root (root @ join_segments st) = (join_segments st, root)"
proof -
  let ?b = "join_segments st"
  note hb = join_segments_hd[OF assms(1)]
  from assms(2) consider (a) "root = []" | (b) "root = ''/''" | (c) "root = ''//''" by blast
  then show ?thesis
  proof cases
    case a
    show ?thesis
    proof (cases ?b)
      case Nil
      then show ?thesis using a by (simp add: canonicalize_root_def)
    next
      case (Cons c s1)
      then have n: "\<not> IS_DIR_SEPARATOR c" using hb by simp
      have "canonicalize_root (c # s1) = (c # s1, [])"
        unfolding canonicalize_root_def list.case if_not_P[OF n] ..
      then show ?thesis using a Cons by simp
    qed
  next
    case b
    have sep: "IS_DIR_SEPARATOR CHR ''/''" by (simp add: IS_DIR_SEPARATOR_def)
    have n: "\<not> (?b \<noteq> [] \<and> IS_DIR_SEPARATOR (hd ?b) \<and> \<not> (tl ?b \<noteq> [] \<and> IS_DIR_SEPARATOR (hd (tl ?b))))"
      using hb by blast
    have "canonicalize_root (CHR ''/'' # ?b) = (skip_separators ?b, ''/'')"
      unfolding canonicalize_root_def list.case if_P[OF sep] if_not_P[OF n] ..
    then show ?thesis using b skip_separators_id[OF hb] by simp
  next
    case c
    have sep: "IS_DIR_SEPARATOR CHR ''/''" by (simp add: IS_DIR_SEPARATOR_def)
    let ?s1 = "CHR ''/'' # ?b"
    have y: "?s1 \<noteq> [] \<and> IS_DIR_SEPARATOR (hd ?s1) \<and> \<not> (tl ?s1 \<noteq> [] \<and> IS_DIR_SEPARATOR (hd (tl ?s1)))"
      using hb sep by auto
    have "canonicalize_root (CHR ''/'' # ?s1) = (skip_separators (tl ?s1), [CHR ''/'', hd ?s1])"
      unfolding canonicalize_root_def list.case if_P[OF sep] if_P[OF y] ..
    then show ?thesis using c skip_separators_id[OF hb] by simp
  qed
qed

lemma segments_join:
  "list_all wf_segment st \<Longrightarrow> segments (join_segments st) = st"
proof (induction st rule: join_segments.induct)
  case 1
  then show ?case by (simp add: segments_Nil)
next
  case (2 g)
  then have g: "g \<noteq> []" "CHR ''/'' \<notin> set g" by (simp_all add: wf_segment_def)
  have nn: "\<forall>x\<in>set g. \<not> IS_DIR_SEPARATOR x" using g by (auto simp: IS_DIR_SEPARATOR_def)
  have tw: "takeWhile (\<lambda>x. \<not> IS_DIR_SEPARATOR x) g = g" using nn by simp
  have dw: "dropWhile (\<lambda>x. \<not> IS_DIR_SEPARATOR x) g = []" using nn by simp
  show ?case using segments_Cons[OF g(1)] tw dw by (simp add: skip_separators_def segments_Nil)
next
  case (3 g h gs)
  then have wg: "wf_segment g" and w: "list_all wf_segment (h # gs)" by simp_all
  have g: "g \<noteq> []" "CHR ''/'' \<notin> set g" using wg by (simp_all add: wf_segment_def)
  have nn: "\<forall>x\<in>set g. \<not> IS_DIR_SEPARATOR x" using g by (auto simp: IS_DIR_SEPARATOR_def)
  let ?r = "join_segments (h # gs)"
  have sep: "IS_DIR_SEPARATOR CHR ''/''" by (simp add: IS_DIR_SEPARATOR_def)
  have tw: "takeWhile (\<lambda>x. \<not> IS_DIR_SEPARATOR x) (g @ CHR ''/'' # ?r) = g"
    using nn sep by (simp add: takeWhile_append2)
  have dw: "dropWhile (\<lambda>x. \<not> IS_DIR_SEPARATOR x) (g @ CHR ''/'' # ?r) = CHR ''/'' # ?r"
    using nn sep by (simp add: dropWhile_append2)
  have sk: "skip_separators (CHR ''/'' # ?r) = ?r"
    using skip_separators_id[OF join_segments_hd[OF w]] sep by (simp add: skip_separators_def)
  have ne: "g @ CHR ''/'' # ?r \<noteq> []" by simp
  have "segments (g @ CHR ''/'' # ?r) = g # segments ?r"
    using segments_Cons[OF ne] unfolding tw dw sk .
  then show ?case using "3.IH"[OF w] by simp
qed

lemma canonical_stack_elems:
  assumes "canonical_stack st" "x \<in> set st"
  shows "x = ''..'' \<or> (wf_segment x \<and> x \<noteq> ''.'' \<and> x \<noteq> ''..'')"
proof -
  have "x \<in> set (takeWhile (\<lambda>g. g = ''..'') st @ dropWhile (\<lambda>g. g = ''..'') st)"
    using assms(2) by (simp only: takeWhile_dropWhile_id)
  then have "x \<in> set (takeWhile (\<lambda>g. g = ''..'') st) \<or> x \<in> set (dropWhile (\<lambda>g. g = ''..'') st)"
    by (simp only: set_append Un_iff)
  then show ?thesis
  proof
    assume "x \<in> set (takeWhile (\<lambda>g. g = ''..'') st)"
    then have "x = ''..''" by (rule set_takeWhileD[THEN conjunct2])
    then show ?thesis ..
  next
    assume "x \<in> set (dropWhile (\<lambda>g. g = ''..'') st)"
    then have "wf_segment x \<and> x \<noteq> ''.'' \<and> x \<noteq> ''..''"
      using assms(1) unfolding canonical_stack_def list_all_iff by blast
    then show ?thesis ..
  qed
qed

lemma canonical_stack_before_dot_dot:
  assumes "canonical_stack (acc @ ''..'' # xs)"
  shows "\<forall>x\<in>set acc. x = ''..''"
proof (rule ccontr)
  assume "\<not> (\<forall>x\<in>set acc. x = ''..'')"
  then obtain x where x: "x \<in> set acc" "\<not> (x = ''..'')" by blast
  have dw: "dropWhile (\<lambda>g. g = ''..'') (acc @ ''..'' # xs)
        = dropWhile (\<lambda>g. g = ''..'') acc @ ''..'' # xs"
    by (rule dropWhile_append1[OF x(1)]) (rule x(2))
  have mem: "''..'' \<in> set (dropWhile (\<lambda>g. g = ''..'') (acc @ ''..'' # xs))"
    unfolding dw by simp
  have "list_all (\<lambda>g. wf_segment g \<and> g \<noteq> ''.'' \<and> g \<noteq> ''..'')
          (dropWhile (\<lambda>g. g = ''..'') (acc @ ''..'' # xs))"
    using assms unfolding canonical_stack_def .
  then have "\<forall>g\<in>set (dropWhile (\<lambda>g. g = ''..'') (acc @ ''..'' # xs)).
               wf_segment g \<and> g \<noteq> ''.'' \<and> g \<noteq> ''..''"
    unfolding list_all_iff .
  from bspec[OF this mem] show False by simp
qed

lemma foldl_push_canonical:
  "canonical_stack (acc @ xs) \<Longrightarrow> foldl push_segment acc xs = acc @ xs"
proof (induction xs arbitrary: acc)
  case Nil
  then show ?case by simp
next
  case (Cons x xs)
  have nd: "x \<noteq> ''.''" using canonical_stack_elems[OF Cons.prems, of x] by auto
  have "push_segment acc x = acc @ [x]"
  proof (cases "x = ''..''")
    case True
    then have "\<forall>y\<in>set acc. y = ''..''" using canonical_stack_before_dot_dot Cons.prems by blast
    then have "acc = [] \<or> last acc = ''..''" using last_in_set by blast
    then show ?thesis using True by (auto simp: push_segment_def)
  next
    case False
    then show ?thesis using nd by (simp add: push_segment_def)
  qed
  moreover have "canonical_stack ((acc @ [x]) @ xs)" using Cons.prems by simp
  ultimately show ?case using Cons.IH[of "acc @ [x]"] by simp
qed

lemma set_dropWhile_butlast:
  "set (dropWhile P (butlast st)) \<subseteq> set (dropWhile P st)"
proof (induction st)
  case Nil
  then show ?case by simp
next
  case (Cons x xs)
  show ?case
  proof (cases "xs = []")
    case True
    then show ?thesis by simp
  next
    case False
    then show ?thesis using Cons.IH by (auto dest: in_set_butlastD)
  qed
qed

lemma canonical_push_segment:
  assumes c: "canonical_stack st" and w: "wf_segment g"
  shows "canonical_stack (push_segment st g)"
proof (cases "g = ''.''")
  case True
  then have "push_segment st g = st" by (simp add: push_segment_def)
  then show ?thesis using c by simp
next
  case nd: False
  let ?P = "\<lambda>g. g = ''..''"
  let ?N = "\<lambda>g. wf_segment g \<and> g \<noteq> ''.'' \<and> g \<noteq> ''..''"
  have cN: "\<forall>x\<in>set (dropWhile ?P st). ?N x"
    using c unfolding canonical_stack_def list_all_iff .
  show ?thesis
  proof (cases "g = ''..'' \<and> st \<noteq> [] \<and> last st \<noteq> ''..''")
    case True
    have p: "push_segment st g = butlast st"
      unfolding push_segment_def if_not_P[OF nd] if_P[OF True] ..
    have "\<forall>x\<in>set (dropWhile ?P (butlast st)). ?N x"
      using cN set_dropWhile_butlast[of ?P st] by blast
    then have "list_all ?N (dropWhile ?P (butlast st))" unfolding list_all_iff .
    then show ?thesis unfolding p canonical_stack_def .
  next
    case False
    have p: "push_segment st g = st @ [g]"
      unfolding push_segment_def if_not_P[OF nd] if_not_P[OF False] ..
    show ?thesis
    proof (cases "\<forall>x\<in>set st. ?P x")
      case True
      have dw: "dropWhile ?P (st @ [g]) = dropWhile ?P [g]"
        by (rule dropWhile_append2) (use True in blast)
      have "list_all ?N (dropWhile ?P [g])" using w nd by simp
      then have "list_all ?N (dropWhile ?P (st @ [g]))" unfolding dw .
      then show ?thesis unfolding p canonical_stack_def .
    next
      case F2: False
      then obtain x where x: "x \<in> set st" "\<not> ?P x" by blast
      have dw: "dropWhile ?P (st @ [g]) = dropWhile ?P st @ [g]"
        by (rule dropWhile_append1[OF x(1)]) (rule x(2))
      have dne: "dropWhile ?P st \<noteq> []"
        using x unfolding dropWhile_eq_Nil_conv by blast
      have "last (takeWhile ?P st @ dropWhile ?P st) = last (dropWhile ?P st)"
        using dne by (rule last_appendR)
      then have "last st = last (dropWhile ?P st)" unfolding takeWhile_dropWhile_id .
      moreover have "last (dropWhile ?P st) \<in> set (dropWhile ?P st)" using dne by (rule last_in_set)
      ultimately have "last st \<in> set (dropWhile ?P st)" by simp
      then have "last st \<noteq> ''..''" using cN by blast
      moreover have "st \<noteq> []" using x(1) by auto
      ultimately have gn: "g \<noteq> ''..''" using False by blast
      have "?N x" if "x \<in> set (dropWhile ?P st @ [g])" for x
      proof -
        from that have "x \<in> set (dropWhile ?P st) \<or> x \<in> set [g]"
          by (simp only: set_append Un_iff)
        then show ?thesis
        proof
          assume "x \<in> set (dropWhile ?P st)"
          then show ?thesis using cN by (rule bspec[rotated])
        next
          assume "x \<in> set [g]"
          then have "x = g" by simp
          then show ?thesis using w nd gn by simp
        qed
      qed
      then have "\<forall>x\<in>set (dropWhile ?P st @ [g]). ?N x" by blast
      then have "list_all ?N (dropWhile ?P (st @ [g]))" unfolding dw list_all_iff .
      then show ?thesis unfolding p canonical_stack_def .
    qed
  qed
qed

lemma canonical_foldl_push:
  "canonical_stack st \<Longrightarrow> list_all wf_segment xs \<Longrightarrow> canonical_stack (foldl push_segment st xs)"
  by (induction xs arbitrary: st) (simp_all add: canonical_push_segment)

lemma wf_foldl_push:
  "list_all wf_segment st \<Longrightarrow> list_all wf_segment xs \<Longrightarrow> list_all wf_segment (foldl push_segment st xs)"
  by (induction xs arbitrary: st) (simp_all add: wf_push_segment)

lemma wf_segments:
  "s = [] \<or> \<not> IS_DIR_SEPARATOR (hd s) \<Longrightarrow> list_all wf_segment (segments s)"
proof (induction "length s" arbitrary: s rule: less_induct)
  case less
  show ?case
  proof (cases "s = []")
    case True
    then show ?thesis by (simp add: segments_Nil)
  next
    case False
    then have hs: "\<not> IS_DIR_SEPARATOR (hd s)" using less.prems by simp
    let ?g = "takeWhile (\<lambda>x. \<not> IS_DIR_SEPARATOR x) s"
    let ?rest = "dropWhile (\<lambda>x. \<not> IS_DIR_SEPARATOR x) s"
    have wg: "wf_segment ?g" by (rule wf_name[OF False hs])
    have "length ?g + length ?rest = length s"
      by (metis length_append takeWhile_dropWhile_id)
    moreover have "?g \<noteq> []" using wg by (simp add: wf_segment_def)
    ultimately have "length ?rest < length s" by (cases ?g) auto
    then have sh: "length (skip_separators ?rest) < length s"
      using length_skip_separators[of ?rest] by simp
    have "list_all wf_segment (segments (skip_separators ?rest))"
      by (rule less.hyps[OF sh skip_separators_hd])
    then show ?thesis using wg segments_Cons[OF False] by simp
  qed
qed

text \<open>
  Claim C7. \<^verbatim>\<open>canonicalize_path\<close> is idempotent: applied to its own result it returns that
  result again, for every path.
\<close>

theorem canonicalize_path_idempotent:
  "canonicalize_path (canonicalize_path p) = canonicalize_path p"
proof -
  obtain s0 root where r: "canonicalize_root p = (s0, root)" by (cases "canonicalize_root p")
  define st where "st = foldl push_segment [] (segments s0)"
  note rc = canonicalize_root_cases[OF r]
  have ws: "list_all wf_segment (segments s0)" using wf_segments rc by blast
  have wst: "list_all wf_segment st" unfolding st_def by (rule wf_foldl_push[OF _ ws]) simp
  have cst: "canonical_stack st" unfolding st_def
    by (rule canonical_foldl_push[OF _ ws]) (simp add: canonical_stack_def)
  have cp: "canonicalize_path p = (if root @ join_segments st = [] then ''.'' else root @ join_segments st)"
    unfolding st_def by (rule canonicalize_path_segments[OF r])
  show ?thesis
  proof (cases "root @ join_segments st = []")
    case True
    have "canonicalize_path ''.'' = ''.''" by code_simp
    then show ?thesis unfolding cp if_P[OF True] .
  next
    case False
    have r2: "canonicalize_root (root @ join_segments st) = (join_segments st, root)"
      using canonicalize_root_join[OF wst] rc by blast
    have f: "foldl push_segment [] (segments (join_segments st)) = st"
      using segments_join[OF wst] foldl_push_canonical[of "[]" st] cst by simp
    have "canonicalize_path (root @ join_segments st) = root @ join_segments st"
      unfolding canonicalize_path_segments[OF r2] f if_not_P[OF False] ..
    then show ?thesis unfolding cp if_not_P[OF False] .
  qed
qed

section \<open>Proofs: line tables\<close>

text \<open>
  Claim C3. After \<^verbatim>\<open>edit_dwarf2_line\<close> every rebuilt table is to be as long as the old
  table plus its size delta, with \<^verbatim>\<open>unit_length\<close> and \<^verbatim>\<open>header_length\<close> moved by that
  delta, and the new section is to be the rebuilt tables one after another. The run
  below is a version 2 table at offset 0 with no directory and the single file
  \<^verbatim>\<open>/b/a.c\<close>, whose directory index 0 is stored in the two bytes 0x80 0x00; \<^verbatim>\<open>base_dir\<close>
  is \<^verbatim>\<open>/b\<close> and \<^verbatim>\<open>dest_dir\<close> is \<^verbatim>\<open>/dd\<close>. Phase zero (\<open>read_dwarf2_line\<close>) records the
  size delta 1 and a new section of 33 bytes. \<open>edit_dwarf2_line\<close> stores 29 as
  \<^verbatim>\<open>unit_length\<close> and 20 as \<^verbatim>\<open>header_length\<close>, the old values plus 1, but it stores the
  directory index in one byte, so the table it stores has 32 bytes, the old length, and
  not 33: the line number program begins at offset 29 and not at 30, where
  \<^verbatim>\<open>header_length\<close> puts it, and the last byte of the section is never stored; it is
  whatever the new block held (\<open>line_buf 32\<close>).
\<close>

theorem edit_dwarf2_line_padded_uleb128:
  "read_dwarf2_line ELFDATA2LSB (Some ''/b'') (Some ''/dd'')
     (Some [28, 0, 0, 0,  2, 0,  19, 0, 0, 0,  1, 1, 0xfb, 14, 2,  0,  0,
            0x2f, 0x62, 0x2f, 0x61, 0x2e, 0x63, 0,  0x80, 0,  0,  0,  0,
            0, 1, 1])
     \<lparr>table = [], debug_lines_len = 0\<rparr> 0 8
   = Inr (True,
          \<lparr>table = [\<lparr>old_idx = 0, new_idx = 0, size_diff = 1, replace_dirs = False,
                     replace_files = True, unit_length = 28, version = 2,
                     header_length = 19, min_instr_len = 1, max_op_per_instr = 0,
                     default_is_stmt = 1, line_base = 0xfb, line_range = 14,
                     opcode_base = 2\<rparr>],
           debug_lines_len = 33\<rparr>)
   \<and> edit_dwarf2_line ELFDATA2LSB ''/b'' ''/dd''
       [28, 0, 0, 0,  2, 0,  19, 0, 0, 0,  1, 1, 0xfb, 14, 2,  0,  0,
        0x2f, 0x62, 0x2f, 0x61, 0x2e, 0x63, 0,  0x80, 0,  0,  0,  0,
        0, 1, 1]
       line_buf
       \<lparr>table = [\<lparr>old_idx = 0, new_idx = 0, size_diff = 1, replace_dirs = False,
                  replace_files = True, unit_length = 28, version = 2,
                  header_length = 19, min_instr_len = 1, max_op_per_instr = 0,
                  default_is_stmt = 1, line_base = 0xfb, line_range = 14,
                  opcode_base = 2\<rparr>],
        debug_lines_len = 33\<rparr>
     = Inr (\<lparr>table = [\<lparr>old_idx = 0, new_idx = 0, size_diff = 1, replace_dirs = False,
                       replace_files = True, unit_length = 28, version = 2,
                       header_length = 19, min_instr_len = 1, max_op_per_instr = 0,
                       default_is_stmt = 1, line_base = 0xfb, line_range = 14,
                       opcode_base = 2\<rparr>],
             debug_lines_len = 33\<rparr>,
            [29, 0, 0, 0,  2, 0,  20, 0, 0, 0,  1, 1, 0xfb, 14, 2,  0,  0,
             0x2f, 0x64, 0x64, 0x2f, 0x61, 0x2e, 0x63, 0,  0,  0,  0,  0,
             0, 1, 1] @ [line_buf 32])"
proof -
  have phase_zero:
    "read_dwarf2_line ELFDATA2LSB (Some ''/b'') (Some ''/dd'')
       (Some [28, 0, 0, 0,  2, 0,  19, 0, 0, 0,  1, 1, 0xfb, 14, 2,  0,  0,
              0x2f, 0x62, 0x2f, 0x61, 0x2e, 0x63, 0,  0x80, 0,  0,  0,  0,
              0, 1, 1])
       \<lparr>table = [], debug_lines_len = 0\<rparr> 0 8
     = Inr (True,
            \<lparr>table = [\<lparr>old_idx = 0, new_idx = 0, size_diff = 1, replace_dirs = False,
                       replace_files = True, unit_length = 28, version = 2,
                       header_length = 19, min_instr_len = 1, max_op_per_instr = 0,
                       default_is_stmt = 1, line_base = 0xfb, line_range = 14,
                       opcode_base = 2\<rparr>],
             debug_lines_len = 33\<rparr>)"
    by code_simp
  have stored:
    "edit_line_tables ELFDATA2LSB ''/b'' ''/dd''
       [28, 0, 0, 0,  2, 0,  19, 0, 0, 0,  1, 1, 0xfb, 14, 2,  0,  0,
        0x2f, 0x62, 0x2f, 0x61, 0x2e, 0x63, 0,  0x80, 0,  0,  0,  0,
        0, 1, 1]
       33
       [\<lparr>old_idx = 0, new_idx = 0, size_diff = 1, replace_dirs = False,
         replace_files = True, unit_length = 28, version = 2,
         header_length = 19, min_instr_len = 1, max_op_per_instr = 0,
         default_is_stmt = 1, line_base = 0xfb, line_range = 14,
         opcode_base = 2\<rparr>] []
     = Inr ([\<lparr>old_idx = 0, new_idx = 0, size_diff = 1, replace_dirs = False,
              replace_files = True, unit_length = 28, version = 2,
              header_length = 19, min_instr_len = 1, max_op_per_instr = 0,
              default_is_stmt = 1, line_base = 0xfb, line_range = 14,
              opcode_base = 2\<rparr>],
            [29, 0, 0, 0,  2, 0,  20, 0, 0, 0,  1, 1, 0xfb, 14, 2,  0,  0,
             0x2f, 0x64, 0x64, 0x2f, 0x61, 0x2e, 0x63, 0,  0,  0,  0,  0,
             0, 1, 1])"
    by code_simp
  have tail:
    "map line_buf
       [length [29 :: byte, 0, 0, 0,  2, 0,  20, 0, 0, 0,  1, 1, 0xfb, 14, 2,  0,  0,
                0x2f, 0x64, 0x64, 0x2f, 0x61, 0x2e, 0x63, 0,  0,  0,  0,  0,
                0, 1, 1] ..< 33]
     = [line_buf 32]"
    by code_simp
  have edited:
    "edit_dwarf2_line ELFDATA2LSB ''/b'' ''/dd''
       [28, 0, 0, 0,  2, 0,  19, 0, 0, 0,  1, 1, 0xfb, 14, 2,  0,  0,
        0x2f, 0x62, 0x2f, 0x61, 0x2e, 0x63, 0,  0x80, 0,  0,  0,  0,
        0, 1, 1]
       line_buf
       \<lparr>table = [\<lparr>old_idx = 0, new_idx = 0, size_diff = 1, replace_dirs = False,
                  replace_files = True, unit_length = 28, version = 2,
                  header_length = 19, min_instr_len = 1, max_op_per_instr = 0,
                  default_is_stmt = 1, line_base = 0xfb, line_range = 14,
                  opcode_base = 2\<rparr>],
        debug_lines_len = 33\<rparr>
     = Inr (\<lparr>table = [\<lparr>old_idx = 0, new_idx = 0, size_diff = 1, replace_dirs = False,
                       replace_files = True, unit_length = 28, version = 2,
                       header_length = 19, min_instr_len = 1, max_op_per_instr = 0,
                       default_is_stmt = 1, line_base = 0xfb, line_range = 14,
                       opcode_base = 2\<rparr>],
             debug_lines_len = 33\<rparr>,
            [29, 0, 0, 0,  2, 0,  20, 0, 0, 0,  1, 1, 0xfb, 14, 2,  0,  0,
             0x2f, 0x64, 0x64, 0x2f, 0x61, 0x2e, 0x63, 0,  0,  0,  0,  0,
             0, 1, 1] @ [line_buf 32])"
    unfolding edit_dwarf2_line_def
    by (simp only: debug_lines.simps sort_key_simps insort_key.simps stored sum.case prod.case
          tail)
  from phase_zero edited show ?thesis by (rule conjI)
qed

text \<open>
  For comparison, the same table with the directory index stored in one byte (31 bytes,
  \<^verbatim>\<open>unit_length\<close> 27, \<^verbatim>\<open>header_length\<close> 18): the 32 bytes announced are all stored.
\<close>

lemma edit_dwarf2_line_minimal_uleb128:
  "read_dwarf2_line ELFDATA2LSB (Some ''/b'') (Some ''/dd'')
     (Some [27, 0, 0, 0,  2, 0,  18, 0, 0, 0,  1, 1, 0xfb, 14, 2,  0,  0,
        0x2f, 0x62, 0x2f, 0x61, 0x2e, 0x63, 0,  0,  0,  0,  0,
        0, 1, 1])
     \<lparr>table = [], debug_lines_len = 0\<rparr> 0 8
   = Inr (True, \<lparr>table = [\<lparr>old_idx = 0, new_idx = 0, size_diff = 1, replace_dirs = False,
         replace_files = True, unit_length = 27, version = 2,
         header_length = 18, min_instr_len = 1, max_op_per_instr = 0,
         default_is_stmt = 1, line_base = 0xfb, line_range = 14,
         opcode_base = 2\<rparr>], debug_lines_len = 32\<rparr>)
   \<and> edit_dwarf2_line ELFDATA2LSB ''/b'' ''/dd''
       [27, 0, 0, 0,  2, 0,  18, 0, 0, 0,  1, 1, 0xfb, 14, 2,  0,  0,
        0x2f, 0x62, 0x2f, 0x61, 0x2e, 0x63, 0,  0,  0,  0,  0,
        0, 1, 1]
       line_buf
       \<lparr>table = [\<lparr>old_idx = 0, new_idx = 0, size_diff = 1, replace_dirs = False,
         replace_files = True, unit_length = 27, version = 2,
         header_length = 18, min_instr_len = 1, max_op_per_instr = 0,
         default_is_stmt = 1, line_base = 0xfb, line_range = 14,
         opcode_base = 2\<rparr>], debug_lines_len = 32\<rparr>
     = Inr (\<lparr>table = [\<lparr>old_idx = 0, new_idx = 0, size_diff = 1, replace_dirs = False,
         replace_files = True, unit_length = 27, version = 2,
         header_length = 18, min_instr_len = 1, max_op_per_instr = 0,
         default_is_stmt = 1, line_base = 0xfb, line_range = 14,
         opcode_base = 2\<rparr>], debug_lines_len = 32\<rparr>,
            [28 :: byte, 0, 0, 0,  2, 0,  19, 0, 0, 0,  1, 1, 0xfb, 14, 2,  0,  0,
        0x2f, 0x64, 0x64, 0x2f, 0x61, 0x2e, 0x63, 0,  0,  0,  0,  0,
        0, 1, 1])"
proof -
  have phase_zero:
    "read_dwarf2_line ELFDATA2LSB (Some ''/b'') (Some ''/dd'')
       (Some [27, 0, 0, 0,  2, 0,  18, 0, 0, 0,  1, 1, 0xfb, 14, 2,  0,  0,
        0x2f, 0x62, 0x2f, 0x61, 0x2e, 0x63, 0,  0,  0,  0,  0,
        0, 1, 1])
       \<lparr>table = [], debug_lines_len = 0\<rparr> 0 8
     = Inr (True, \<lparr>table = [\<lparr>old_idx = 0, new_idx = 0, size_diff = 1, replace_dirs = False,
         replace_files = True, unit_length = 27, version = 2,
         header_length = 18, min_instr_len = 1, max_op_per_instr = 0,
         default_is_stmt = 1, line_base = 0xfb, line_range = 14,
         opcode_base = 2\<rparr>], debug_lines_len = 32\<rparr>)"
    by code_simp
  have stored:
    "edit_line_tables ELFDATA2LSB ''/b'' ''/dd''
       [27, 0, 0, 0,  2, 0,  18, 0, 0, 0,  1, 1, 0xfb, 14, 2,  0,  0,
        0x2f, 0x62, 0x2f, 0x61, 0x2e, 0x63, 0,  0,  0,  0,  0,
        0, 1, 1]
       32
       [\<lparr>old_idx = 0, new_idx = 0, size_diff = 1, replace_dirs = False,
         replace_files = True, unit_length = 27, version = 2,
         header_length = 18, min_instr_len = 1, max_op_per_instr = 0,
         default_is_stmt = 1, line_base = 0xfb, line_range = 14,
         opcode_base = 2\<rparr>] []
     = Inr ([\<lparr>old_idx = 0, new_idx = 0, size_diff = 1, replace_dirs = False,
         replace_files = True, unit_length = 27, version = 2,
         header_length = 18, min_instr_len = 1, max_op_per_instr = 0,
         default_is_stmt = 1, line_base = 0xfb, line_range = 14,
         opcode_base = 2\<rparr>],
            [28 :: byte, 0, 0, 0,  2, 0,  19, 0, 0, 0,  1, 1, 0xfb, 14, 2,  0,  0,
        0x2f, 0x64, 0x64, 0x2f, 0x61, 0x2e, 0x63, 0,  0,  0,  0,  0,
        0, 1, 1])"
    by code_simp
  have tail:
    "map line_buf
       [length [28 :: byte, 0, 0, 0,  2, 0,  19, 0, 0, 0,  1, 1, 0xfb, 14, 2,  0,  0,
        0x2f, 0x64, 0x64, 0x2f, 0x61, 0x2e, 0x63, 0,  0,  0,  0,  0,
        0, 1, 1] ..< 32]
     = []"
    by code_simp
  have edited:
    "edit_dwarf2_line ELFDATA2LSB ''/b'' ''/dd''
       [27, 0, 0, 0,  2, 0,  18, 0, 0, 0,  1, 1, 0xfb, 14, 2,  0,  0,
        0x2f, 0x62, 0x2f, 0x61, 0x2e, 0x63, 0,  0,  0,  0,  0,
        0, 1, 1]
       line_buf
       \<lparr>table = [\<lparr>old_idx = 0, new_idx = 0, size_diff = 1, replace_dirs = False,
         replace_files = True, unit_length = 27, version = 2,
         header_length = 18, min_instr_len = 1, max_op_per_instr = 0,
         default_is_stmt = 1, line_base = 0xfb, line_range = 14,
         opcode_base = 2\<rparr>], debug_lines_len = 32\<rparr>
     = Inr (\<lparr>table = [\<lparr>old_idx = 0, new_idx = 0, size_diff = 1, replace_dirs = False,
         replace_files = True, unit_length = 27, version = 2,
         header_length = 18, min_instr_len = 1, max_op_per_instr = 0,
         default_is_stmt = 1, line_base = 0xfb, line_range = 14,
         opcode_base = 2\<rparr>], debug_lines_len = 32\<rparr>,
            [28 :: byte, 0, 0, 0,  2, 0,  19, 0, 0, 0,  1, 1, 0xfb, 14, 2,  0,  0,
        0x2f, 0x64, 0x64, 0x2f, 0x61, 0x2e, 0x63, 0,  0,  0,  0,  0,
        0, 1, 1])"
    unfolding edit_dwarf2_line_def
    by (simp only: debug_lines.simps sort_key_simps insort_key.simps stored sum.case prod.case
          tail append_Nil2)
  from phase_zero edited show ?thesis by (rule conjI)
qed

end
